theory Spec2Isabelle
  imports
    Main
    "HOL-Library.AList"
    "HOL-Library.Char_ord"
    "HOL-Library.List_Lexorder"
    "HOL-Library.Product_Lexorder"
begin

section \<open>The sequence matcher used by the diff\<close>

text \<open>
  \<^verbatim>\<open>side_by_side_diff\<close> builds \<^verbatim>\<open>difflib.SequenceMatcher(None, lines_old, lines_new)\<close>
  and walks its \<^verbatim>\<open>get_opcodes()\<close>. The matcher is the one of the Python standard
  library, called with \<^verbatim>\<open>isjunk = None\<close> and the default \<^verbatim>\<open>autojunk = True\<close>; it is
  embedded here method by method. Indices are natural numbers: every index
  the matcher computes is non-negative, and the two places where Python's
  integers could differ from truncating subtraction are written out
  (\<^verbatim>\<open>j2len.get(j-1, 0)\<close> at \<^verbatim>\<open>j = 0\<close>, and \<^verbatim>\<open>i-k+1\<close>, written \<open>i + 1 - k\<close> and shown
  below never to truncate).
\<close>

type_synonym match = "nat \<times> nat \<times> nat"

text \<open>
  \<^verbatim>\<open>__chain_b\<close>: with \<^verbatim>\<open>isjunk = None\<close> the junk set stays empty. With
  \<^verbatim>\<open>autojunk\<close> and \<^verbatim>\<open>n >= 200\<close>, an element with more than \<^verbatim>\<open>n // 100 + 1\<close>
  occurrences in \<^verbatim>\<open>b\<close> is popular and deleted from \<^verbatim>\<open>b2j\<close>.
\<close>

definition isbjunk :: "'a \<Rightarrow> bool" where
  "isbjunk elt \<longleftrightarrow> False"

definition popular :: "'a list \<Rightarrow> 'a \<Rightarrow> bool" where
  "popular b elt \<longleftrightarrow> length b \<ge> 200 \<and> count_list b elt > length b div 100 + 1"

text \<open>\<^verbatim>\<open>b2j.get(elt, nothing)\<close>: the ascending indices of \<^verbatim>\<open>elt\<close> in \<^verbatim>\<open>b\<close>.\<close>

definition b2j :: "'a list \<Rightarrow> 'a \<Rightarrow> nat list" where
  "b2j b elt = (if popular b elt then [] else filter (\<lambda>j. b ! j = elt) [0..<length b])"

text \<open>\<^verbatim>\<open>j2len.get(j-1, 0)\<close>; the key \<^verbatim>\<open>-1\<close> is never in the dictionary.\<close>

definition j2lenget :: "(nat \<rightharpoonup> nat) \<Rightarrow> nat \<Rightarrow> nat" where
  "j2lenget j2len j =
     (if j = 0 then 0 else case j2len (j - 1) of None \<Rightarrow> 0 | Some k \<Rightarrow> k)"

text \<open>
  The inner loop of \<^verbatim>\<open>find_longest_match\<close> over the indices \<^verbatim>\<open>j\<close> of \<^verbatim>\<open>b2j[a[i]]\<close>,
  with its \<^verbatim>\<open>continue\<close> and \<^verbatim>\<open>break\<close>; the state is \<^verbatim>\<open>newj2len\<close> and the best match.
\<close>

fun flm_row ::
  "nat \<Rightarrow> nat \<Rightarrow> (nat \<rightharpoonup> nat) \<Rightarrow> nat \<Rightarrow> nat list \<Rightarrow> (nat \<rightharpoonup> nat) \<times> match
     \<Rightarrow> (nat \<rightharpoonup> nat) \<times> match" where
  "flm_row blo bhi j2len i [] st = st"
| "flm_row blo bhi j2len i (j # js) (newj2len, besti, bestj, bestsize) =
     (if j < blo then flm_row blo bhi j2len i js (newj2len, besti, bestj, bestsize)
      else if j \<ge> bhi then (newj2len, besti, bestj, bestsize)
      else
        let k = j2lenget j2len j + 1 in
        flm_row blo bhi j2len i js
          (newj2len(j \<mapsto> k),
           if k > bestsize then (i + 1 - k, j + 1 - k, k) else (besti, bestj, bestsize)))"

text \<open>The outer loop \<^verbatim>\<open>for i in range(alo, ahi)\<close>.\<close>

fun flm_rows ::
  "'a list \<Rightarrow> 'a list \<Rightarrow> nat \<Rightarrow> nat \<Rightarrow> nat list \<Rightarrow> (nat \<rightharpoonup> nat) \<times> match \<Rightarrow> match" where
  "flm_rows a b blo bhi [] (j2len, best) = best"
| "flm_rows a b blo bhi (i # is) (j2len, best) =
     (case flm_row blo bhi j2len i (b2j b (a ! i)) (Map.empty, best) of
        (newj2len, best') \<Rightarrow> flm_rows a b blo bhi is (newj2len, best'))"

text \<open>
  The four \<^verbatim>\<open>while\<close> loops that extend the best match: first over non-junk
  elements (\<open>junk = False\<close>), then over junk elements (\<open>junk = True\<close>).
\<close>

function extend_lo :: "bool \<Rightarrow> 'a list \<Rightarrow> 'a list \<Rightarrow> nat \<Rightarrow> nat \<Rightarrow> match \<Rightarrow> match" where
  "extend_lo junk a b alo blo (besti, bestj, bestsize) =
     (if besti > alo \<and> bestj > blo \<and> isbjunk (b ! (bestj - 1)) = junk
         \<and> a ! (besti - 1) = b ! (bestj - 1)
      then extend_lo junk a b alo blo (besti - 1, bestj - 1, bestsize + 1)
      else (besti, bestj, bestsize))"
  by pat_completeness auto
termination
  by (relation "measure (\<lambda>(junk, a, b, alo, blo, besti, bestj, bestsize). besti)") auto

function extend_hi :: "bool \<Rightarrow> 'a list \<Rightarrow> 'a list \<Rightarrow> nat \<Rightarrow> nat \<Rightarrow> match \<Rightarrow> match" where
  "extend_hi junk a b ahi bhi (besti, bestj, bestsize) =
     (if besti + bestsize < ahi \<and> bestj + bestsize < bhi \<and> isbjunk (b ! (bestj + bestsize)) = junk
         \<and> a ! (besti + bestsize) = b ! (bestj + bestsize)
      then extend_hi junk a b ahi bhi (besti, bestj, bestsize + 1)
      else (besti, bestj, bestsize))"
  by pat_completeness auto
termination
  by (relation "measure (\<lambda>(junk, a, b, ahi, bhi, besti, bestj, bestsize). ahi - (besti + bestsize))")
    auto

definition find_longest_match :: "'a list \<Rightarrow> 'a list \<Rightarrow> nat \<Rightarrow> nat \<Rightarrow> nat \<Rightarrow> nat \<Rightarrow> match" where
  "find_longest_match a b alo ahi blo bhi =
     (let best = flm_rows a b blo bhi [alo..<ahi] (Map.empty, (alo, blo, 0));
          best = extend_lo False a b alo blo best;
          best = extend_hi False a b ahi bhi best;
          best = extend_lo True a b alo blo best;
          best = extend_hi True a b ahi bhi best
      in best)"

subsection \<open>Bounds of the longest match\<close>

definition in_box :: "nat \<Rightarrow> nat \<Rightarrow> nat \<Rightarrow> nat \<Rightarrow> match \<Rightarrow> bool" where
  "in_box alo ahi blo bhi m \<longleftrightarrow>
     (case m of (i, j, k) \<Rightarrow> alo \<le> i \<and> i + k \<le> ahi \<and> blo \<le> j \<and> j + k \<le> bhi)"

declare extend_lo.simps [simp del] extend_hi.simps [simp del]

lemma extend_lo_stop:
  "\<not> (besti > alo \<and> bestj > blo) \<Longrightarrow>
     extend_lo junk a b alo blo (besti, bestj, bestsize) = (besti, bestj, bestsize)"
  by (subst extend_lo.simps) auto

lemma extend_hi_stop:
  "\<not> (besti + bestsize < ahi \<and> bestj + bestsize < bhi) \<Longrightarrow>
     extend_hi junk a b ahi bhi (besti, bestj, bestsize) = (besti, bestj, bestsize)"
  by (subst extend_hi.simps) auto

definition j2len_ok :: "nat \<Rightarrow> nat \<Rightarrow> nat \<Rightarrow> (nat \<rightharpoonup> nat) \<Rightarrow> bool" where
  "j2len_ok alo blo i m \<longleftrightarrow> (\<forall>j k. m j = Some k \<longrightarrow> k + alo \<le> i \<and> k + blo \<le> j + 1)"

lemma j2len_ok_empty: "j2len_ok alo blo i Map.empty"
  by (simp add: j2len_ok_def)

lemma j2lenget_bound:
  assumes "j2len_ok alo blo i m" "alo \<le> i" "blo \<le> j"
  shows "j2lenget m j + 1 + alo \<le> i + 1 \<and> j2lenget m j + 1 + blo \<le> j + 1"
proof (cases "j = 0")
  case True
  then show ?thesis using assms by (simp add: j2lenget_def)
next
  case False
  show ?thesis
  proof (cases "m (j - 1)")
    case None
    then show ?thesis using assms False by (simp add: j2lenget_def)
  next
    case (Some k)
    with assms(1) have "k + alo \<le> i" "k + blo \<le> (j - 1) + 1"
      unfolding j2len_ok_def by blast+
    then show ?thesis using Some False by (simp add: j2lenget_def)
  qed
qed

lemma flm_row_inv:
  assumes "j2len_ok alo blo i j2len" "alo \<le> i" "i < ahi"
    and "j2len_ok alo blo (i + 1) new" "in_box alo ahi blo bhi best"
    and "flm_row blo bhi j2len i js (new, best) = (new', best')"
  shows "j2len_ok alo blo (i + 1) new' \<and> in_box alo ahi blo bhi best'"
  using assms(4-)
proof (induction js arbitrary: new best)
  case Nil
  then show ?case by simp
next
  case (Cons j js)
  obtain bi bj bs where best: "best = (bi, bj, bs)" by (cases best)
  show ?case
  proof (cases "j < blo")
    case True
    with Cons best show ?thesis by simp
  next
    case nlo: False
    show ?thesis
    proof (cases "j \<ge> bhi")
      case True
      with Cons nlo best show ?thesis by simp
    next
      case False
      define k where "k = j2lenget j2len j + 1"
      have kb: "k + alo \<le> i + 1" "k + blo \<le> j + 1"
        using j2lenget_bound[OF assms(1,2), of j] nlo by (simp_all add: k_def)
      have n: "j2len_ok alo blo (i + 1) (new(j \<mapsto> k))"
        using Cons.prems(1) kb by (auto simp: j2len_ok_def)
      have b: "in_box alo ahi blo bhi (if k > bs then (i + 1 - k, j + 1 - k, k) else (bi, bj, bs))"
        using Cons.prems(2) kb False assms(3) best by (auto simp: in_box_def)
      have "flm_row blo bhi j2len i js (new(j \<mapsto> k), if k > bs then (i + 1 - k, j + 1 - k, k) else (bi, bj, bs)) = (new', best')"
        using Cons.prems(3) nlo False best by (auto simp: k_def Let_def split: if_splits)
      from Cons.IH[OF n b this] show ?thesis .
    qed
  qed
qed

lemma flm_rows_inv:
  assumes "j2len_ok alo blo i j2len" "in_box alo ahi blo bhi best" "alo \<le> i"
  shows "in_box alo ahi blo bhi (flm_rows a b blo bhi [i..<ahi] (j2len, best))"
  using assms
proof (induction "ahi - i" arbitrary: i j2len best)
  case 0
  then show ?case by simp
next
  case (Suc n)
  then have lt: "i < ahi" by simp
  obtain new' best' where r: "flm_row blo bhi j2len i (b2j b (a ! i)) (Map.empty, best) = (new', best')"
    by (cases "flm_row blo bhi j2len i (b2j b (a ! i)) (Map.empty, best)")
  from flm_row_inv[OF Suc.prems(1) Suc.prems(3) lt j2len_ok_empty Suc.prems(2) r]
  have inv: "j2len_ok alo blo (i + 1) new'" "in_box alo ahi blo bhi best'" by simp_all
  have "n = ahi - (i + 1)" using Suc.hyps(2) by simp
  from Suc.hyps(1)[OF this inv] Suc.prems(3)
  have "in_box alo ahi blo bhi (flm_rows a b blo bhi [i + 1..<ahi] (new', best'))" by simp
  then show ?case using lt r by (simp add: upt_conv_Cons)
qed

lemma extend_lo_inv:
  "in_box alo ahi blo bhi m \<Longrightarrow> in_box alo ahi blo bhi (extend_lo junk a b alo blo m)"
proof (induction junk a b alo blo m rule: extend_lo.induct)
  case (1 junk a b alo blo besti bestj bestsize)
  show ?case
  proof (cases "besti > alo \<and> bestj > blo \<and> isbjunk (b ! (bestj - 1)) = junk
         \<and> a ! (besti - 1) = b ! (bestj - 1)")
    case True
    have "in_box alo ahi blo bhi (besti - 1, bestj - 1, bestsize + 1)"
      using True "1.prems" by (auto simp: in_box_def)
    from "1.IH"[OF True this] True show ?thesis by (subst extend_lo.simps) simp
  next
    case False
    then show ?thesis using "1.prems" by (subst extend_lo.simps) auto
  qed
qed

lemma extend_hi_inv:
  "in_box alo ahi blo bhi m \<Longrightarrow> in_box alo ahi blo bhi (extend_hi junk a b ahi bhi m)"
proof (induction junk a b ahi bhi m rule: extend_hi.induct)
  case (1 junk a b ahi bhi besti bestj bestsize)
  show ?case
  proof (cases "besti + bestsize < ahi \<and> bestj + bestsize < bhi \<and> isbjunk (b ! (bestj + bestsize)) = junk
         \<and> a ! (besti + bestsize) = b ! (bestj + bestsize)")
    case True
    have "in_box alo ahi blo bhi (besti, bestj, bestsize + 1)"
      using True "1.prems" by (auto simp: in_box_def)
    from "1.IH"[OF True this] True show ?thesis by (subst extend_hi.simps) simp
  next
    case False
    then show ?thesis using "1.prems" by (subst extend_hi.simps) auto
  qed
qed

lemma find_longest_match_in_box:
  assumes "alo \<le> ahi" "blo \<le> bhi"
  shows "in_box alo ahi blo bhi (find_longest_match a b alo ahi blo bhi)"
proof -
  have "in_box alo ahi blo bhi (alo, blo, 0)" using assms by (simp add: in_box_def)
  from flm_rows_inv[OF j2len_ok_empty this order_refl]
  show ?thesis
    unfolding find_longest_match_def Let_def
    by (intro extend_hi_inv extend_lo_inv)
qed

text \<open>Outside a well-formed box nothing is found.\<close>

lemma flm_row_none:
  "bhi \<le> blo \<Longrightarrow> flm_row blo bhi j2len i js (new, bi, bj, bs) = (new, bi, bj, bs)"
  by (induction js) auto

lemma flm_rows_none:
  "bhi \<le> blo \<Longrightarrow> flm_rows a b blo bhi is (j2len, bi, bj, bs) = (bi, bj, bs)"
  by (induction "is" arbitrary: j2len) (auto simp: flm_row_none)

lemma find_longest_match_degenerate:
  assumes "ahi < alo \<or> bhi < blo"
  shows "find_longest_match a b alo ahi blo bhi = (alo, blo, 0)"
proof -
  have "flm_rows a b blo bhi [alo..<ahi] (Map.empty, (alo, blo, 0)) = (alo, blo, 0)"
    using assms by (auto simp: flm_rows_none)
  then show ?thesis using assms
    by (auto simp: find_longest_match_def Let_def extend_lo_stop extend_hi_stop)
qed

lemma find_longest_match_bounds:
  assumes "find_longest_match a b alo ahi blo bhi = (i, j, k)" "k \<noteq> 0"
  shows "alo \<le> i \<and> i + k \<le> ahi \<and> blo \<le> j \<and> j + k \<le> bhi"
proof (cases "ahi < alo \<or> bhi < blo")
  case True
  from find_longest_match_degenerate[OF this, of a b] assms show ?thesis by simp
next
  case False
  then have "alo \<le> ahi" "blo \<le> bhi" by auto
  from find_longest_match_in_box[OF this, of a b] assms(1) show ?thesis
    by (simp add: in_box_def)
qed


subsection \<open>Matching blocks and opcodes\<close>

text \<open>
  \<^verbatim>\<open>get_matching_blocks\<close>: the work list \<^verbatim>\<open>queue\<close> is a stack; its top (the end of the
  Python list, where \<^verbatim>\<open>pop\<close> and \<^verbatim>\<open>append\<close> work) is the head of the list here.
\<close>

function gmb_loop ::
  "'a list \<Rightarrow> 'a list \<Rightarrow> (nat \<times> nat \<times> nat \<times> nat) list \<Rightarrow> match list \<Rightarrow> match list" where
  "gmb_loop a b [] matching_blocks = matching_blocks"
| "gmb_loop a b ((alo, ahi, blo, bhi) # queue) matching_blocks =
     (case find_longest_match a b alo ahi blo bhi of
        (i, j, k) \<Rightarrow>
          if k \<noteq> 0 then
            gmb_loop a b
              ((if i + k < ahi \<and> j + k < bhi then [(i + k, ahi, j + k, bhi)] else []) @
               (if alo < i \<and> blo < j then [(alo, i, blo, j)] else []) @ queue)
              (matching_blocks @ [(i, j, k)])
          else gmb_loop a b queue matching_blocks)"
  by pat_completeness auto
termination
proof (relation "measure (\<lambda>(a, b, queue, matching_blocks).
          sum_list (map (\<lambda>(alo, ahi, blo, bhi). 2 * (ahi - alo) + 1) queue))", goal_cases)
  case 1
  show ?case by simp
next
  case (2 a b alo ahi blo bhi queue matching_blocks i y j k)
  then have "find_longest_match a b alo ahi blo bhi = (i, j, k)" by simp
  from find_longest_match_bounds[OF this \<open>k \<noteq> 0\<close>] \<open>k \<noteq> 0\<close>
  show ?case by auto
next
  case 3
  then show ?case by simp
qed

declare gmb_loop.simps [simp del]

text \<open>The loop that collapses adjacent blocks, with the block \<^verbatim>\<open>(i1, j1, k1)\<close> to compare against.\<close>

fun collapse :: "match list \<Rightarrow> match \<Rightarrow> match list \<Rightarrow> match list \<times> match" where
  "collapse [] (i1, j1, k1) non_adjacent = (non_adjacent, (i1, j1, k1))"
| "collapse ((i2, j2, k2) # rest) (i1, j1, k1) non_adjacent =
     (if i1 + k1 = i2 \<and> j1 + k1 = j2 then collapse rest (i1, j1, k1 + k2) non_adjacent
      else collapse rest (i2, j2, k2)
             (if k1 \<noteq> 0 then non_adjacent @ [(i1, j1, k1)] else non_adjacent))"

definition get_matching_blocks :: "'a list \<Rightarrow> 'a list \<Rightarrow> match list" where
  "get_matching_blocks a b =
     (let la = length a; lb = length b;
          matching_blocks = sort (gmb_loop a b [(0, la, 0, lb)] [])
      in case collapse matching_blocks (0, 0, 0) [] of
           (non_adjacent, (i1, j1, k1)) \<Rightarrow>
             (if k1 \<noteq> 0 then non_adjacent @ [(i1, j1, k1)] else non_adjacent) @ [(la, lb, 0)])"

text \<open>The opcode tags \<^verbatim>\<open>'replace'\<close>, \<^verbatim>\<open>'delete'\<close>, \<^verbatim>\<open>'insert'\<close> and \<^verbatim>\<open>'equal'\<close>.\<close>

datatype tag = Replace | Delete | Insert | Equal

type_synonym opcode = "tag \<times> nat \<times> nat \<times> nat \<times> nat"

fun opcodes_loop :: "match list \<Rightarrow> nat \<Rightarrow> nat \<Rightarrow> opcode list \<Rightarrow> opcode list" where
  "opcodes_loop [] i j answer = answer"
| "opcodes_loop ((ai, bj, sz) # rest) i j answer =
     (let answer =
            (if i < ai \<and> j < bj then answer @ [(Replace, i, ai, j, bj)]
             else if i < ai then answer @ [(Delete, i, ai, j, bj)]
             else if j < bj then answer @ [(Insert, i, ai, j, bj)]
             else answer);
          i' = ai + sz; j' = bj + sz;
          answer = (if sz \<noteq> 0 then answer @ [(Equal, ai, i', bj, j')] else answer)
      in opcodes_loop rest i' j' answer)"

definition get_opcodes :: "'a list \<Rightarrow> 'a list \<Rightarrow> opcode list" where
  "get_opcodes a b = opcodes_loop (get_matching_blocks a b) 0 0 []"

section \<open>Diff logic\<close>

text \<open>The line statuses \<^verbatim>\<open>"Unchanged"\<close>, \<^verbatim>\<open>"Modified"\<close>, \<^verbatim>\<open>"Removed"\<close> and \<^verbatim>\<open>"Added"\<close>.\<close>

datatype line_status = Unchanged | Modified | Removed | Added

type_synonym diff_line = "string \<times> string \<times> line_status"

text \<open>A Python slice \<^verbatim>\<open>xs[i1:i2]\<close> with non-negative bounds; it clamps at the end of the list.\<close>

definition slice :: "'a list \<Rightarrow> nat \<Rightarrow> nat \<Rightarrow> 'a list" where
  "slice xs i1 i2 = take (i2 - i1) (drop i1 xs)"

definition status_of :: "tag \<Rightarrow> line_status" where
  "status_of tag =
     (if tag = Equal then Unchanged
      else if tag = Replace then Modified
      else if tag = Delete then Removed
      else Added)"

text \<open>The body of the loop over the opcodes: the rows one opcode appends to \<^verbatim>\<open>diff\<close>.\<close>

definition chunk_rows :: "string list \<Rightarrow> string list \<Rightarrow> opcode \<Rightarrow> diff_line list" where
  "chunk_rows lines_old lines_new opc =
     (case opc of
        (tag, i1, i2, j1, j2) \<Rightarrow>
          let old_chunk = slice lines_old i1 i2;
              new_chunk = slice lines_new j1 j2;
              max_len = max (length old_chunk) (length new_chunk);
              old_chunk = old_chunk @ replicate (max_len - length old_chunk) [];
              new_chunk = new_chunk @ replicate (max_len - length new_chunk) []
          in map (\<lambda>(old, new). (old, new, status_of tag)) (zip old_chunk new_chunk))"

fun diff_loop :: "string list \<Rightarrow> string list \<Rightarrow> opcode list \<Rightarrow> diff_line list \<Rightarrow> diff_line list" where
  "diff_loop lines_old lines_new [] diff = diff"
| "diff_loop lines_old lines_new (opc # opcs) diff =
     diff_loop lines_old lines_new opcs (diff @ chunk_rows lines_old lines_new opc)"

definition side_by_side_diff :: "string list \<Rightarrow> string list \<Rightarrow> diff_line list" where
  "side_by_side_diff lines_old lines_new =
     diff_loop lines_old lines_new (get_opcodes lines_old lines_new) []"

section \<open>Folder comparison\<close>

text \<open>\<^verbatim>\<open>s.rstrip(c)\<close> for a one-character set and \<^verbatim>\<open>s.startswith(p)\<close>.\<close>

definition rstrip :: "string \<Rightarrow> char \<Rightarrow> string" where
  "rstrip s c = rev (dropWhile (\<lambda>x. x = c) (rev s))"

definition startswith :: "string \<Rightarrow> string \<Rightarrow> bool" where
  "startswith s p \<longleftrightarrow> take (length p) s = p"

text \<open>
  A dictionary is an association list in insertion order with distinct keys:
  \<^const>\<open>AList.update\<close> replaces the value of a key that is present and appends a
  new key, as a dict comprehension does; \<^verbatim>\<open>d.get(k)\<close> is \<^const>\<open>map_of\<close>.
\<close>

definition rel_map :: "string list \<Rightarrow> string \<Rightarrow> (string \<times> string) list" where
  "rel_map files root0 =
     (let root = rstrip root0 CHR ''/'' in
      foldl (\<lambda>d f. if startswith f (root @ ''/'')
                     then AList.update (drop (length root + 1) f) f d else d)
        [] files)"

text \<open>
  \<^verbatim>\<open>fnmatch.fnmatch\<close> belongs to the standard library; the comparison takes it as the
  parameter \<open>fnmatch\<close>.
\<close>

definition should_ignore :: "(string \<Rightarrow> string \<Rightarrow> bool) \<Rightarrow> string \<Rightarrow> string list \<Rightarrow> bool" where
  "should_ignore fnmatch rel_path patterns \<longleftrightarrow> list_ex (\<lambda>p. fnmatch rel_path p) patterns"

text \<open>
  An SFTP session, as far as the comparison uses it: \<open>list_files\<close> is what
  \<^verbatim>\<open>list_files(sftp, path)\<close> returns for a folder, and \<open>file_lines\<close> is what opening,
  reading, decoding and splitting a file gives, \<open>None\<close> when any of it raises.
\<close>

record sftp =
  list_files :: "string \<Rightarrow> string list"
  file_lines :: "string \<Rightarrow> string list option"

text \<open>
  \<^verbatim>\<open>read_file_lines\<close> catches every exception and returns \<^verbatim>\<open>None\<close>; opening the path
  \<^verbatim>\<open>None\<close> raises.
\<close>

definition read_file_lines :: "sftp \<Rightarrow> string option \<Rightarrow> string list option" where
  "read_file_lines s filepath =
     (case filepath of None \<Rightarrow> None | Some p \<Rightarrow> file_lines s p)"

text \<open>
  The file statuses \<^verbatim>\<open>"Ignored (pattern)"\<close>, \<^verbatim>\<open>"Only in Old Folder"\<close>,
  \<^verbatim>\<open>"Only in New Folder"\<close>, \<^verbatim>\<open>"Binary or unreadable file"\<close> and \<^verbatim>\<open>"Side-by-side diff"\<close>.
\<close>

datatype file_status = Ignored | OnlyInOld | OnlyInNew | Unreadable | SideBySide

type_synonym file_diff = "string \<times> file_status \<times> diff_line list"

datatype side = Old | New

text \<open>
  The effects of a run: the list \<^verbatim>\<open>diffs\<close>, the calls of \<^verbatim>\<open>progress_callback\<close> and the
  calls of \<^verbatim>\<open>read_file_lines\<close> (session and path), each in the order made.
\<close>

record run =
  diffs :: "file_diff list"
  progress_calls :: "(nat \<times> nat \<times> string) list"
  read_calls :: "(side \<times> string option) list"

text \<open>Truth value of \<^verbatim>\<open>d.get(k)\<close>: \<^verbatim>\<open>None\<close> and the empty string are false.\<close>

definition truthy :: "string option \<Rightarrow> bool" where
  "truthy p \<longleftrightarrow> (case p of None \<Rightarrow> False | Some s \<Rightarrow> s \<noteq> [])"

definition append_diff :: "file_diff \<Rightarrow> run \<Rightarrow> run" where
  "append_diff d st = st\<lparr>diffs := diffs st @ [d]\<rparr>"

definition call_progress :: "bool \<Rightarrow> nat \<Rightarrow> nat \<Rightarrow> string \<Rightarrow> run \<Rightarrow> run" where
  "call_progress progress_callback i total_n rel st =
     (if progress_callback then st\<lparr>progress_calls := progress_calls st @ [(i, total_n, rel)]\<rparr>
      else st)"

definition call_read :: "side \<Rightarrow> string option \<Rightarrow> run \<Rightarrow> run" where
  "call_read sd p st = st\<lparr>read_calls := read_calls st @ [(sd, p)]\<rparr>"

text \<open>
  One iteration of the loop of \<^verbatim>\<open>compare_folders\<close>. \<open>progress_callback\<close> tells whether
  a callback was supplied.
\<close>

definition loop_body ::
  "(string \<Rightarrow> string \<Rightarrow> bool) \<Rightarrow> sftp \<Rightarrow> sftp \<Rightarrow> (string \<times> string) list \<Rightarrow> (string \<times> string) list
     \<Rightarrow> string list \<Rightarrow> bool \<Rightarrow> bool \<Rightarrow> nat \<Rightarrow> nat \<times> string \<Rightarrow> run \<Rightarrow> run" where
  "loop_body fnmatch sftp_old sftp_new files_old files_new ignore_patterns hide_ignored
       progress_callback total_n ir st =
     (case ir of
        (i, rel) \<Rightarrow>
          let po = map_of files_old rel;
              pn = map_of files_new rel
          in
            if should_ignore fnmatch rel ignore_patterns then
              let st = (if \<not> hide_ignored then append_diff (rel, Ignored, []) st else st)
              in call_progress progress_callback i total_n rel st
            else
              let st =
                (if truthy po \<and> \<not> truthy pn then append_diff (rel, OnlyInOld, []) st
                 else if truthy pn \<and> \<not> truthy po then append_diff (rel, OnlyInNew, []) st
                 else
                   let lo = read_file_lines sftp_old po;
                       st = call_read Old po st;
                       ln = read_file_lines sftp_new pn;
                       st = call_read New pn st
                   in
                     (case (lo, ln) of
                        (Some lo', Some ln') \<Rightarrow>
                          append_diff (rel, SideBySide, side_by_side_diff lo' ln') st
                      | _ \<Rightarrow> append_diff (rel, Unreadable, []) st))
              in call_progress progress_callback i total_n rel st)"

fun compare_loop ::
  "(string \<Rightarrow> string \<Rightarrow> bool) \<Rightarrow> sftp \<Rightarrow> sftp \<Rightarrow> (string \<times> string) list \<Rightarrow> (string \<times> string) list
     \<Rightarrow> string list \<Rightarrow> bool \<Rightarrow> bool \<Rightarrow> nat \<Rightarrow> (nat \<times> string) list \<Rightarrow> run \<Rightarrow> run" where
  "compare_loop fnmatch sftp_old sftp_new files_old files_new ignore_patterns hide_ignored
       progress_callback total_n [] st = st"
| "compare_loop fnmatch sftp_old sftp_new files_old files_new ignore_patterns hide_ignored
       progress_callback total_n (ir # rest) st =
     compare_loop fnmatch sftp_old sftp_new files_old files_new ignore_patterns hide_ignored
       progress_callback total_n rest
       (loop_body fnmatch sftp_old sftp_new files_old files_new ignore_patterns hide_ignored
          progress_callback total_n ir st)"

text \<open>\<^verbatim>\<open>sorted(set(files_old) | set(files_new))\<close>: the sorted union of the keys.\<close>

definition all_files :: "(string \<times> string) list \<Rightarrow> (string \<times> string) list \<Rightarrow> string list" where
  "all_files files_old files_new =
     sorted_list_of_set (set (map fst files_old) \<union> set (map fst files_new))"

definition compare_folders ::
  "(string \<Rightarrow> string \<Rightarrow> bool) \<Rightarrow> sftp \<Rightarrow> sftp \<Rightarrow> string \<Rightarrow> string \<Rightarrow> string list \<Rightarrow> bool \<Rightarrow> bool
     \<Rightarrow> run" where
  "compare_folders fnmatch sftp_old sftp_new folder_old folder_new ignore_patterns hide_ignored
       progress_callback =
     (let files_old = rel_map (list_files sftp_old folder_old) folder_old;
          files_new = rel_map (list_files sftp_new folder_new) folder_new;
          all = all_files files_old files_new;
          total_n = length all
      in compare_loop fnmatch sftp_old sftp_new files_old files_new ignore_patterns hide_ignored
           progress_callback total_n (List.enumerate 1 all)
           \<lparr>diffs = [], progress_calls = [], read_calls = []\<rparr>)"

section \<open>Auxiliary notions for the proofs\<close>

text \<open>One step of the dictionary comprehension of \<^verbatim>\<open>rel_map\<close>, and what holds of the dictionary after each step.\<close>

definition rel_step :: "string \<Rightarrow> (string \<times> string) list \<Rightarrow> string \<Rightarrow> (string \<times> string) list" where
  "rel_step root d f =
     (if startswith f (root @ ''/'') then AList.update (drop (length root + 1) f) f d else d)"

definition rel_inv :: "string \<Rightarrow> string list \<Rightarrow> (string \<times> string) list \<Rightarrow> bool" where
  "rel_inv root files d \<longleftrightarrow>
     distinct (map fst d) \<and>
     (\<forall>k v. map_of d k = Some v \<longrightarrow>
        v \<in> set files \<and> startswith v (root @ ''/'') \<and> k = drop (length root + 1) v) \<and>
     (\<forall>f \<in> set files. startswith f (root @ ''/'') \<longrightarrow>
        map_of d (drop (length root + 1) f) = Some f)"

text \<open>The record and the reader calls that one iteration of the loop produces for a path.\<close>

definition rel_record ::
  "(string \<Rightarrow> string \<Rightarrow> bool) \<Rightarrow> sftp \<Rightarrow> sftp \<Rightarrow> (string \<times> string) list \<Rightarrow> (string \<times> string) list
     \<Rightarrow> string list \<Rightarrow> string \<Rightarrow> file_diff" where
  "rel_record fnmatch sftp_old sftp_new files_old files_new ignore_patterns rel =
     (let po = map_of files_old rel; pn = map_of files_new rel in
      if should_ignore fnmatch rel ignore_patterns then (rel, Ignored, [])
      else if truthy po \<and> \<not> truthy pn then (rel, OnlyInOld, [])
      else if truthy pn \<and> \<not> truthy po then (rel, OnlyInNew, [])
      else
        (case (read_file_lines sftp_old po, read_file_lines sftp_new pn) of
           (Some lo, Some ln) \<Rightarrow> (rel, SideBySide, side_by_side_diff lo ln)
         | _ \<Rightarrow> (rel, Unreadable, [])))"

definition rel_reads ::
  "(string \<Rightarrow> string \<Rightarrow> bool) \<Rightarrow> (string \<times> string) list \<Rightarrow> (string \<times> string) list
     \<Rightarrow> string list \<Rightarrow> string \<Rightarrow> (side \<times> string option) list" where
  "rel_reads fnmatch files_old files_new ignore_patterns rel =
     (let po = map_of files_old rel; pn = map_of files_new rel in
      if should_ignore fnmatch rel ignore_patterns then []
      else if truthy po \<and> \<not> truthy pn then []
      else if truthy pn \<and> \<not> truthy po then []
      else [(Old, po), (New, pn)])"

text \<open>
  A concrete run: two folders with a file changed, a file matching the pattern, a file on
  one side only for each side, an empty file on both sides and a file that cannot be read.
\<close>

definition ex_fnmatch :: "string \<Rightarrow> string \<Rightarrow> bool" where
  "ex_fnmatch rel p \<longleftrightarrow> p = ''*.bin'' \<and> drop (length rel - 4) rel = ''.bin''"

definition ex_old :: sftp where
  "ex_old =
     \<lparr>list_files = (\<lambda>_. [''/o/a.txt'', ''/o/b.bin'', ''/o/c.txt'', ''/o/e.txt'', ''/o/u.txt'', ''/x/stray'']),
      file_lines = (\<lambda>p. if p = ''/o/a.txt'' then Some [''a'', ''b'', ''c'']
                         else if p = ''/o/e.txt'' then Some [] else None)\<rparr>"

definition ex_new :: sftp where
  "ex_new =
     \<lparr>list_files = (\<lambda>_. [''/n/u.txt'', ''/n/e.txt'', ''/n/d.txt'', ''/n/b.bin'', ''/n/a.txt'']),
      file_lines = (\<lambda>p. if p = ''/n/a.txt'' then Some [''a'', ''x'', ''c'']
                         else if p = ''/n/e.txt'' then Some []
                         else if p = ''/n/u.txt'' then Some [''q''] else None)\<rparr>"

text \<open>
  The length of the longest run of equal elements that are not popular, ending at
  \<open>a ! i\<close> and \<open>a ! j\<close>: what \<^verbatim>\<open>j2len\<close> holds when a sequence is matched against itself.
\<close>

fun dlen :: "'a list \<Rightarrow> nat \<Rightarrow> nat \<Rightarrow> nat" where
  "dlen a 0 j = (if a ! 0 = a ! j \<and> \<not> popular a (a ! j) then 1 else 0)"
| "dlen a (Suc i) 0 = (if a ! Suc i = a ! 0 \<and> \<not> popular a (a ! 0) then 1 else 0)"
| "dlen a (Suc i) (Suc j) =
     (if a ! Suc i = a ! Suc j \<and> \<not> popular a (a ! Suc j) then dlen a i j + 1 else 0)"

definition j2val :: "(nat \<rightharpoonup> nat) \<Rightarrow> nat \<Rightarrow> nat" where
  "j2val m j = (case m j of None \<Rightarrow> 0 | Some k \<Rightarrow> k)"

definition prevlen :: "'a list \<Rightarrow> nat \<Rightarrow> nat \<Rightarrow> nat" where
  "prevlen a i j = (if i = 0 \<or> j = 0 then 0 else dlen a (i - 1) (j - 1))"

text \<open>Notions for the order of the matching blocks and of the opcodes.\<close>

type_synonym box = "nat \<times> nat \<times> nat \<times> nat"

definition box_of :: "match \<Rightarrow> box" where
  "box_of m = (case m of (i, j, k) \<Rightarrow> (i, i + k, j, j + k))"

definition box_prec :: "box \<Rightarrow> box \<Rightarrow> bool" where
  "box_prec x y \<longleftrightarrow>
     (case x of (alo, ahi, blo, bhi) \<Rightarrow> case y of (alo', ahi', blo', bhi') \<Rightarrow>
        ahi \<le> alo' \<and> bhi \<le> blo')"

definition apart :: "box \<Rightarrow> box \<Rightarrow> bool" where
  "apart x y \<longleftrightarrow> box_prec x y \<or> box_prec y x"

definition sub_box :: "box \<Rightarrow> box \<Rightarrow> bool" where
  "sub_box r s \<longleftrightarrow>
     (case r of (alo, ahi, blo, bhi) \<Rightarrow> case s of (alo', ahi', blo', bhi') \<Rightarrow>
        alo \<le> alo' \<and> ahi' \<le> ahi \<and> blo \<le> blo' \<and> bhi' \<le> bhi)"

definition blocks_ok :: "nat \<Rightarrow> nat \<Rightarrow> match list \<Rightarrow> bool" where
  "blocks_ok la lb ms \<longleftrightarrow> (\<forall>m\<in>set ms. case m of (i, j, k) \<Rightarrow> k \<noteq> 0 \<and> i + k \<le> la \<and> j + k \<le> lb)"

definition gmb_inv :: "box list \<Rightarrow> match list \<Rightarrow> bool" where
  "gmb_inv queue ms \<longleftrightarrow> sorted_wrt apart (map box_of ms @ queue)"

definition queue_ok :: "nat \<Rightarrow> nat \<Rightarrow> box list \<Rightarrow> bool" where
  "queue_ok la lb queue \<longleftrightarrow> (\<forall>q\<in>set queue. case q of (alo, ahi, blo, bhi) \<Rightarrow> ahi \<le> la \<and> bhi \<le> lb)"

definition prec :: "match \<Rightarrow> match \<Rightarrow> bool" where
  "prec m1 m2 \<longleftrightarrow>
     (case m1 of (i1, j1, k1) \<Rightarrow> case m2 of (i2, j2, k2) \<Rightarrow> i1 + k1 \<le> i2 \<and> j1 + k1 \<le> j2)"

definition ends_ok :: "nat \<Rightarrow> nat \<Rightarrow> match list \<Rightarrow> bool" where
  "ends_ok la lb ms \<longleftrightarrow> (\<forall>m\<in>set ms. case m of (i, j, k) \<Rightarrow> i + k \<le> la \<and> j + k \<le> lb)"

text \<open>What a well-formed opcode looks like, by tag.\<close>

definition opcode_ok :: "opcode \<Rightarrow> bool" where
  "opcode_ok opc \<longleftrightarrow>
     (case opc of (tag, i1, i2, j1, j2) \<Rightarrow>
        (case tag of
           Replace \<Rightarrow> i1 < i2 \<and> j1 < j2
         | Delete \<Rightarrow> i1 < i2 \<and> j1 = j2
         | Insert \<Rightarrow> i1 = i2 \<and> j1 < j2
         | Equal \<Rightarrow> i1 < i2 \<and> j1 < j2 \<and> i2 - i1 = j2 - j1))"

text \<open>
  Opcodes that follow one another from position \<open>(i, j)\<close> to position \<open>(i', j')\<close>: each
  starts where the one before it ends, in both sequences.
\<close>

fun contiguous :: "nat \<Rightarrow> nat \<Rightarrow> opcode list \<Rightarrow> nat \<Rightarrow> nat \<Rightarrow> bool" where
  "contiguous i j [] i' j' \<longleftrightarrow> i = i' \<and> j = j'"
| "contiguous i j ((tag, i1, i2, j1, j2) # opcs) i' j' \<longleftrightarrow>
     i1 = i \<and> j1 = j \<and> opcode_ok (tag, i1, i2, j1, j2) \<and> contiguous i2 j2 opcs i' j'"

text \<open>The opcodes one matching block contributes.\<close>

definition block_ops :: "nat \<Rightarrow> nat \<Rightarrow> match \<Rightarrow> opcode list" where
  "block_ops i j m =
     (case m of (ai, bj, sz) \<Rightarrow>
        (if i < ai \<and> j < bj then [(Replace, i, ai, j, bj)]
         else if i < ai then [(Delete, i, ai, j, bj)]
         else if j < bj then [(Insert, i, ai, j, bj)]
         else []) @
        (if sz \<noteq> 0 then [(Equal, ai, ai + sz, bj, bj + sz)] else []))"

section \<open>The relative-path index\<close>

lemma startswith_drop_inj:
  assumes "startswith f p" "startswith g p" "drop (length p) f = drop (length p) g"
  shows "f = g"
proof -
  have "f = take (length p) f @ drop (length p) f" by simp
  also have "\<dots> = take (length p) g @ drop (length p) g"
    using assms by (simp add: startswith_def)
  finally show ?thesis by simp
qed

lemma rel_step_eq:
  "(\<lambda>d f. if startswith f (root @ ''/'')
            then AList.update (drop (length root + 1) f) f d else d) = rel_step root"
  by (intro ext) (simp add: rel_step_def)

lemma rel_map_foldl: "rel_map files root0 = foldl (rel_step (rstrip root0 CHR ''/'')) [] files"
  by (simp only: rel_map_def Let_def rel_step_eq)

lemma rel_inv_step:
  assumes "rel_inv root files d"
  shows "rel_inv root (files @ [f]) (rel_step root d f)"
proof -
  let ?p = "root @ ''/''"
  let ?key = "\<lambda>g. drop (length root + 1) g"
  from assms have dist: "distinct (map fst d)"
    and vals: "\<And>k v. map_of d k = Some v \<Longrightarrow> v \<in> set files \<and> startswith v ?p \<and> k = ?key v"
    and keys: "\<And>g. g \<in> set files \<Longrightarrow> startswith g ?p \<Longrightarrow> map_of d (?key g) = Some g"
    unfolding rel_inv_def by blast+
  show ?thesis
  proof (cases "startswith f ?p")
    case False
    then have eq: "rel_step root d f = d" by (simp add: rel_step_def)
    have "map_of d (?key g) = Some g" if "g \<in> set (files @ [f])" "startswith g ?p" for g
    proof -
      from that False have "g \<in> set files" by auto
      from keys[OF this that(2)] show ?thesis .
    qed
    moreover have "v \<in> set (files @ [f]) \<and> startswith v ?p \<and> k = ?key v"
      if "map_of d k = Some v" for k v
      using vals[OF that] by simp
    ultimately show ?thesis unfolding rel_inv_def eq using dist by blast
  next
    case True
    have m: "map_of (rel_step root d f) = (map_of d)(?key f \<mapsto> f)"
      using True by (simp add: rel_step_def update_conv')
    have d': "distinct (map fst (rel_step root d f))"
      using dist True by (simp add: rel_step_def distinct_update)
    have v': "v \<in> set (files @ [f]) \<and> startswith v ?p \<and> k = ?key v"
      if "map_of (rel_step root d f) k = Some v" for k v
    proof (cases "k = ?key f")
      case True
      with that m have "v = f" by simp
      then show ?thesis using True \<open>startswith f ?p\<close> by simp
    next
      case False
      with that m have "map_of d k = Some v" by simp
      from vals[OF this] show ?thesis by simp
    qed
    have k': "map_of (rel_step root d f) (?key g) = Some g"
      if "g \<in> set (files @ [f])" "startswith g ?p" for g
    proof (cases "?key g = ?key f")
      case kk: True
      have "length ?p = length root + 1" by simp
      with kk have "drop (length ?p) g = drop (length ?p) f" by simp
      from startswith_drop_inj[OF that(2) True this] have "g = f" .
      then show ?thesis using m by simp
    next
      case False
      then have "g \<noteq> f" by auto
      with that(1) have "g \<in> set files" by simp
      from keys[OF this that(2)] False m show ?thesis by simp
    qed
    show ?thesis unfolding rel_inv_def using d' v' k' by blast
  qed
qed

lemma rel_inv_foldl:
  "rel_inv root files (foldl (rel_step root) [] files)"
proof (induction files rule: rev_induct)
  case Nil
  show ?case by (simp add: rel_inv_def)
next
  case (snoc f files)
  from rel_inv_step[OF snoc] show ?case by simp
qed

lemma rel_map_inv: "rel_inv (rstrip root0 CHR ''/'') files (rel_map files root0)"
  by (simp add: rel_map_foldl rel_inv_foldl)

lemma rel_map_value_nonempty:
  assumes "map_of (rel_map files root0) k = Some v"
  shows "v \<noteq> []"
proof -
  from rel_map_inv[of root0 files] assms have "startswith v (rstrip root0 CHR ''/'' @ ''/'')"
    unfolding rel_inv_def by blast
  then show ?thesis by (auto simp: startswith_def)
qed

lemma rel_map_key_of_value:
  assumes "map_of (rel_map files root0) k = Some v"
  shows "k = drop (length (rstrip root0 CHR ''/'') + 1) v"
  using rel_map_inv[of root0 files] assms unfolding rel_inv_def by blast

text \<open>
  Claim C4, as stated, fails for a root written with a trailing separator: \<^verbatim>\<open>rel_map\<close>
  strips the trailing separators of the root before it builds the prefix. With root
  \<^verbatim>\<open>/a/\<close> the path \<^verbatim>\<open>/a/x\<close> does not start with the root plus one separator
  (\<^verbatim>\<open>/a//\<close>), yet it is kept, under the key \<^verbatim>\<open>x\<close>.
\<close>

theorem rel_map_trailing_separator_counterexample:
  "map_of (rel_map [''/a/x''] ''/a/'') ''x'' = Some ''/a/x''
   \<and> \<not> startswith ''/a/x'' (''/a/'' @ ''/'')"
  by code_simp

text \<open>
  Claim C4, amended: with \<open>root\<close> the given root stripped of its trailing separators,
  the index maps a key \<open>k\<close> to \<open>v\<close> exactly when \<open>v\<close> is a path of the listing that
  starts with \<open>root\<close> plus one separator and \<open>k\<close> is \<open>v\<close> without that prefix. So every
  such path is entered under its stripped key with itself as value, and a path that does
  not start with the prefix contributes no entry.
\<close>

theorem rel_map_entries:
  "map_of (rel_map files root0) k = Some v \<longleftrightarrow>
     v \<in> set files \<and> startswith v (rstrip root0 CHR ''/'' @ ''/'')
       \<and> k = drop (length (rstrip root0 CHR ''/'') + 1) v"
  using rel_map_inv[of root0 files] unfolding rel_inv_def by blast

theorem rel_map_entries_witness:
  "map_of (rel_map [''/a/x'', ''/b/y'', ''/a/z/w''] ''/a//'') ''z/w'' = Some ''/a/z/w''
   \<and> map_of (rel_map [''/a/x'', ''/b/y'', ''/a/z/w''] ''/a//'') ''y'' \<noteq> Some ''/b/y''"
proof -
  have r: "rstrip ''/a//'' CHR ''/'' = ''/a''" by code_simp
  have s1: "startswith ''/a/z/w'' (''/a'' @ ''/'')" by code_simp
  have s2: "\<not> startswith ''/b/y'' (''/a'' @ ''/'')" by code_simp
  show ?thesis
    using rel_map_entries[of "[''/a/x'', ''/b/y'', ''/a/z/w'']" "''/a//''" "''z/w''" "''/a/z/w''"]
      rel_map_entries[of "[''/a/x'', ''/b/y'', ''/a/z/w'']" "''/a//''" "''y''" "''/b/y''"]
      s1 s2
    unfolding r by simp
qed

text \<open>
  Claim C5: no entry of the index is overwritten by a different path. Two paths of the
  listing that are both kept and strip to the same key are the same path; the keys of the
  index are distinct; and every kept path, wherever it stands in the listing, is the
  value found under its key.
\<close>

theorem rel_map_no_overwrite:
  assumes "f1 \<in> set files" "f2 \<in> set files"
    and "startswith f1 (rstrip root0 CHR ''/'' @ ''/'')"
    and "startswith f2 (rstrip root0 CHR ''/'' @ ''/'')"
    and "drop (length (rstrip root0 CHR ''/'') + 1) f1 = drop (length (rstrip root0 CHR ''/'') + 1) f2"
  shows "f1 = f2 \<and> distinct (map fst (rel_map files root0))
    \<and> map_of (rel_map files root0) (drop (length (rstrip root0 CHR ''/'') + 1) f1) = Some f1"
proof -
  have "length (rstrip root0 CHR ''/'' @ ''/'') = length (rstrip root0 CHR ''/'') + 1" by simp
  with assms(5) have "drop (length (rstrip root0 CHR ''/'' @ ''/'')) f1
      = drop (length (rstrip root0 CHR ''/'' @ ''/'')) f2" by simp
  from startswith_drop_inj[OF assms(3,4) this] have "f1 = f2" .
  moreover from rel_map_inv[of root0 files]
  have "distinct (map fst (rel_map files root0))"
    and "map_of (rel_map files root0) (drop (length (rstrip root0 CHR ''/'') + 1) f1) = Some f1"
    using assms(1,3) unfolding rel_inv_def by blast+
  ultimately show ?thesis by simp
qed

theorem rel_map_no_overwrite_witness:
  "map_of (rel_map [''/a/x'', ''/a/y'', ''/a/x''] ''/a'') ''x'' = Some ''/a/x''
   \<and> distinct (map fst (rel_map [''/a/x'', ''/a/y'', ''/a/x''] ''/a''))"
proof -
  have r: "rstrip ''/a'' CHR ''/'' = ''/a''" by code_simp
  have m: "''/a/x'' \<in> set [''/a/x'', ''/a/y'', ''/a/x'']" by simp
  have s: "startswith ''/a/x'' (rstrip ''/a'' CHR ''/'' @ ''/'')" by code_simp
  from rel_map_no_overwrite[OF m m s s refl] show ?thesis unfolding r by simp
qed

section \<open>The loop of the comparison\<close>

lemma loop_body_diffs:
  "diffs (loop_body fm so sn fo fn pats hide cb tot (i, rel) st) =
     diffs st @ (if should_ignore fm rel pats \<and> hide then []
                 else [rel_record fm so sn fo fn pats rel])"
  by (simp add: loop_body_def rel_record_def Let_def append_diff_def call_progress_def
      call_read_def split: option.splits)

lemma loop_body_progress:
  "progress_calls (loop_body fm so sn fo fn pats hide cb tot (i, rel) st) =
     progress_calls st @ (if cb then [(i, tot, rel)] else [])"
  by (simp add: loop_body_def Let_def append_diff_def call_progress_def
      call_read_def split: option.splits)

lemma loop_body_reads:
  "read_calls (loop_body fm so sn fo fn pats hide cb tot (i, rel) st) =
     read_calls st @ rel_reads fm fo fn pats rel"
  by (simp add: loop_body_def rel_reads_def Let_def append_diff_def call_progress_def
      call_read_def split: option.splits)

lemma compare_loop_diffs:
  "diffs (compare_loop fm so sn fo fn pats hide cb tot irs st) =
     diffs st @ map (rel_record fm so sn fo fn pats)
                  (filter (\<lambda>rel. \<not> (should_ignore fm rel pats \<and> hide)) (map snd irs))"
proof (induction irs arbitrary: st)
  case Nil
  show ?case by simp
next
  case (Cons ir irs)
  obtain i rel where ir: "ir = (i, rel)" by (cases ir)
  show ?case by (simp add: Cons.IH ir loop_body_diffs)
qed

lemma compare_loop_progress:
  "progress_calls (compare_loop fm so sn fo fn pats hide cb tot irs st) =
     progress_calls st @ (if cb then map (\<lambda>(i, rel). (i, tot, rel)) irs else [])"
proof (induction irs arbitrary: st)
  case Nil
  show ?case by simp
next
  case (Cons ir irs)
  obtain i rel where ir: "ir = (i, rel)" by (cases ir)
  show ?case by (simp add: Cons.IH ir loop_body_progress)
qed

lemma compare_loop_reads:
  "read_calls (compare_loop fm so sn fo fn pats hide cb tot irs st) =
     read_calls st @ concat (map (rel_reads fm fo fn pats) (map snd irs))"
proof (induction irs arbitrary: st)
  case Nil
  show ?case by simp
next
  case (Cons ir irs)
  obtain i rel where ir: "ir = (i, rel)" by (cases ir)
  show ?case by (simp add: Cons.IH ir loop_body_reads)
qed

lemma map_snd_enumerate: "map snd (List.enumerate n xs) = xs"
  by (simp add: enumerate_eq_zip)

lemma compare_folders_diffs:
  "diffs (compare_folders fm so sn root_old root_new pats hide cb) =
     (let fo = rel_map (list_files so root_old) root_old;
          fn = rel_map (list_files sn root_new) root_new
      in map (rel_record fm so sn fo fn pats)
           (filter (\<lambda>rel. \<not> (should_ignore fm rel pats \<and> hide)) (all_files fo fn)))"
  by (simp add: compare_folders_def Let_def compare_loop_diffs map_snd_enumerate)

lemma compare_folders_progress:
  "progress_calls (compare_folders fm so sn root_old root_new pats hide cb) =
     (let fo = rel_map (list_files so root_old) root_old;
          fn = rel_map (list_files sn root_new) root_new;
          all = all_files fo fn
      in if cb then map (\<lambda>(i, rel). (i, length all, rel)) (List.enumerate 1 all) else [])"
  by (simp add: compare_folders_def Let_def compare_loop_progress)

lemma compare_folders_reads:
  "read_calls (compare_folders fm so sn root_old root_new pats hide cb) =
     (let fo = rel_map (list_files so root_old) root_old;
          fn = rel_map (list_files sn root_new) root_new
      in concat (map (rel_reads fm fo fn pats) (all_files fo fn)))"
  by (simp add: compare_folders_def Let_def compare_loop_reads map_snd_enumerate)

lemma fst_rel_record [simp]: "fst (rel_record fm so sn fo fn pats rel) = rel"
  by (simp add: rel_record_def Let_def split: option.splits)

lemma rel_record_lines:
  "rel_record fm so sn fo fn pats rel = (r, status, ls) \<Longrightarrow> status \<noteq> SideBySide \<Longrightarrow> ls = []"
  by (auto simp: rel_record_def Let_def split: option.splits if_splits)

lemma all_files_props:
  "sorted (all_files fo fn)" "distinct (all_files fo fn)"
  "set (all_files fo fn) = set (map fst fo) \<union> set (map fst fn)"
  "length (all_files fo fn) = card (set (map fst fo) \<union> set (map fst fn))"
  by (simp_all add: all_files_def)

lemma truthy_rel_map:
  "truthy (map_of (rel_map files root0) rel) \<longleftrightarrow> map_of (rel_map files root0) rel \<noteq> None"
proof (cases "map_of (rel_map files root0) rel")
  case None
  then show ?thesis by (simp add: truthy_def)
next
  case (Some v)
  from rel_map_value_nonempty[OF this] Some show ?thesis by (simp add: truthy_def)
qed

lemma all_files_present:
  assumes "rel \<in> set (all_files fo fn)"
  shows "map_of fo rel \<noteq> None \<or> map_of fn rel \<noteq> None"
proof -
  from assms have "rel \<in> fst ` set fo \<or> rel \<in> fst ` set fn"
    by (auto simp: all_files_def)
  then show ?thesis by (simp add: map_of_eq_None_iff)
qed

lemma all_files_iff:
  "rel \<in> set (all_files fo fn) \<longleftrightarrow> map_of fo rel \<noteq> None \<or> map_of fn rel \<noteq> None"
  by (auto simp: all_files_def map_of_eq_None_iff)

text \<open>Every call of the reader belongs to a path that is not ignored and present on both sides.\<close>

lemma rel_reads_elem:
  assumes "c \<in> set (rel_reads fm (rel_map fso ro) (rel_map fsn rn) pats rel)"
    and "rel \<in> set (all_files (rel_map fso ro) (rel_map fsn rn))"
  shows "\<not> should_ignore fm rel pats \<and>
     (\<exists>po pn. map_of (rel_map fso ro) rel = Some po \<and> map_of (rel_map fsn rn) rel = Some pn
        \<and> (c = (Old, Some po) \<or> c = (New, Some pn)))"
proof -
  let ?po = "map_of (rel_map fso ro) rel" and ?pn = "map_of (rel_map fsn rn) rel"
  from assms(1) have ni: "\<not> should_ignore fm rel pats"
    and b: "truthy ?po = truthy ?pn" and c: "c = (Old, ?po) \<or> c = (New, ?pn)"
    by (auto simp: rel_reads_def Let_def split: if_splits)
  from all_files_present[OF assms(2)] have "truthy ?po \<or> truthy ?pn"
    by (simp add: truthy_rel_map)
  with b have "truthy ?po" "truthy ?pn" by auto
  then obtain po pn where "?po = Some po" "?pn = Some pn"
    by (auto simp: truthy_rel_map)
  with ni c show ?thesis by simp
qed

lemma record_unique:
  assumes "(rel, status, ls) \<in> set (diffs (compare_folders fm so sn ro rn pats hide cb))"
  shows "(rel, status, ls) = rel_record fm so sn (rel_map (list_files so ro) ro)
           (rel_map (list_files sn rn) rn) pats rel"
proof -
  from assms obtain r where
    "(rel, status, ls) = rel_record fm so sn (rel_map (list_files so ro) ro)
           (rel_map (list_files sn rn) rn) pats r"
    by (auto simp: compare_folders_diffs Let_def)
  moreover from this have "r = rel"
    using fst_rel_record[of fm so sn "rel_map (list_files so ro) ro" "rel_map (list_files sn rn) rn" pats r]
    by (metis fst_conv)
  ultimately show ?thesis by simp
qed

lemma record_present:
  assumes "map_of (rel_map (list_files so ro) ro) rel \<noteq> None
           \<or> map_of (rel_map (list_files sn rn) rn) rel \<noteq> None"
    and "\<not> (should_ignore fm rel pats \<and> hide)"
  shows "rel_record fm so sn (rel_map (list_files so ro) ro) (rel_map (list_files sn rn) rn) pats rel
           \<in> set (diffs (compare_folders fm so sn ro rn pats hide cb))"
  using assms by (simp add: compare_folders_diffs Let_def all_files_iff)

lemma side_by_side_diff_empty: "side_by_side_diff [] [] = []"
  by code_simp

text \<open>The concrete run, evaluated.\<close>

lemma ex_run1:
  "diffs (compare_folders ex_fnmatch ex_old ex_new ''/o/'' ''/n'' [''*.bin''] False True) =
   [(''a.txt'', SideBySide, [(''a'', ''a'', Unchanged), (''b'', ''x'', Modified), (''c'', ''c'', Unchanged)]),
    (''b.bin'', Ignored, []), (''c.txt'', OnlyInOld, []), (''d.txt'', OnlyInNew, []),
    (''e.txt'', SideBySide, []), (''u.txt'', Unreadable, [])]"
  by code_simp

lemma ex_run_progress:
  "progress_calls (compare_folders ex_fnmatch ex_old ex_new ''/o/'' ''/n'' [''*.bin''] False True) =
   [(1, 6, ''a.txt''), (2, 6, ''b.bin''), (3, 6, ''c.txt''), (4, 6, ''d.txt''),
    (5, 6, ''e.txt''), (6, 6, ''u.txt'')]"
  by code_simp

lemma ex_run_reads:
  "read_calls (compare_folders ex_fnmatch ex_old ex_new ''/o/'' ''/n'' [''*.bin''] False True) =
   [(Old, Some ''/o/a.txt''), (New, Some ''/n/a.txt''), (Old, Some ''/o/e.txt''),
    (New, Some ''/n/e.txt''), (Old, Some ''/o/u.txt''), (New, Some ''/n/u.txt'')]"
  by code_simp

lemma ex_all_files:
  "all_files (rel_map (list_files ex_old ''/o/'') ''/o/'') (rel_map (list_files ex_new ''/n'') ''/n'') =
     [''a.txt'', ''b.bin'', ''c.txt'', ''d.txt'', ''e.txt'', ''u.txt'']"
  by code_simp

lemma ex_rel_map_old:
  "rel_map (list_files ex_old ''/o/'') ''/o/'' =
     [(''a.txt'', ''/o/a.txt''), (''b.bin'', ''/o/b.bin''), (''c.txt'', ''/o/c.txt''),
      (''e.txt'', ''/o/e.txt''), (''u.txt'', ''/o/u.txt'')]"
  by code_simp

lemma ex_rel_map_new:
  "rel_map (list_files ex_new ''/n'') ''/n'' =
     [(''u.txt'', ''/n/u.txt''), (''e.txt'', ''/n/e.txt''), (''d.txt'', ''/n/d.txt''),
      (''b.bin'', ''/n/b.bin''), (''a.txt'', ''/n/a.txt'')]"
  by code_simp

text \<open>
  Claim C6: a relative path that matches an ignore pattern never triggers a content read.
  Whatever \<^verbatim>\<open>hide_ignored\<close> is, \<^verbatim>\<open>read_file_lines\<close> is called neither with the old session
  and the old location of the path nor with the new session and its new location.
\<close>

theorem ignored_path_never_read:
  assumes "should_ignore fnmatch rel ignore_patterns"
  shows "(Old, map_of (rel_map (list_files sftp_old folder_old) folder_old) rel)
           \<notin> set (read_calls (compare_folders fnmatch sftp_old sftp_new folder_old folder_new
                     ignore_patterns hide_ignored progress_callback))
       \<and> (New, map_of (rel_map (list_files sftp_new folder_new) folder_new) rel)
           \<notin> set (read_calls (compare_folders fnmatch sftp_old sftp_new folder_old folder_new
                     ignore_patterns hide_ignored progress_callback))"
proof -
  let ?fo = "rel_map (list_files sftp_old folder_old) folder_old"
  let ?fn = "rel_map (list_files sftp_new folder_new) folder_new"
  let ?R = "read_calls (compare_folders fnmatch sftp_old sftp_new folder_old folder_new
                     ignore_patterns hide_ignored progress_callback)"
  have R: "?R = concat (map (rel_reads fnmatch ?fo ?fn ignore_patterns) (all_files ?fo ?fn))"
    by (simp add: compare_folders_reads Let_def)
  have False if "(Old, map_of ?fo rel) \<in> set ?R"
  proof -
    from that R obtain rel' where r': "rel' \<in> set (all_files ?fo ?fn)"
      and c: "(Old, map_of ?fo rel) \<in> set (rel_reads fnmatch ?fo ?fn ignore_patterns rel')"
      by auto
    from rel_reads_elem[OF c r'] obtain po where ni: "\<not> should_ignore fnmatch rel' ignore_patterns"
      and po: "map_of ?fo rel' = Some po" and e: "map_of ?fo rel = Some po" by auto
    from rel_map_key_of_value[OF po] rel_map_key_of_value[OF e] have "rel' = rel" by simp
    with ni assms show False by simp
  qed
  moreover have False if "(New, map_of ?fn rel) \<in> set ?R"
  proof -
    from that R obtain rel' where r': "rel' \<in> set (all_files ?fo ?fn)"
      and c: "(New, map_of ?fn rel) \<in> set (rel_reads fnmatch ?fo ?fn ignore_patterns rel')"
      by auto
    from rel_reads_elem[OF c r'] obtain pn where ni: "\<not> should_ignore fnmatch rel' ignore_patterns"
      and pn: "map_of ?fn rel' = Some pn" and e: "map_of ?fn rel = Some pn" by auto
    from rel_map_key_of_value[OF pn] rel_map_key_of_value[OF e] have "rel' = rel" by simp
    with ni assms show False by simp
  qed
  ultimately show ?thesis by blast
qed

theorem ignored_path_never_read_witness:
  "should_ignore ex_fnmatch ''b.bin'' [''*.bin'']
   \<and> map_of (rel_map (list_files ex_old ''/o/'') ''/o/'') ''b.bin'' = Some ''/o/b.bin''
   \<and> map_of (rel_map (list_files ex_new ''/n'') ''/n'') ''b.bin'' = Some ''/n/b.bin''
   \<and> (Old, Some ''/o/b.bin'') \<notin> set (read_calls
         (compare_folders ex_fnmatch ex_old ex_new ''/o/'' ''/n'' [''*.bin''] False True))
   \<and> (New, Some ''/n/b.bin'') \<notin> set (read_calls
         (compare_folders ex_fnmatch ex_old ex_new ''/o/'' ''/n'' [''*.bin''] False True))"
proof -
  have i: "should_ignore ex_fnmatch ''b.bin'' [''*.bin'']" by code_simp
  have o: "map_of (rel_map (list_files ex_old ''/o/'') ''/o/'') ''b.bin'' = Some ''/o/b.bin''"
    by (simp add: ex_rel_map_old)
  have n: "map_of (rel_map (list_files ex_new ''/n'') ''/n'') ''b.bin'' = Some ''/n/b.bin''"
    by (simp add: ex_rel_map_new)
  from ignored_path_never_read[OF i, of ex_old "''/o/''" ex_new "''/n''" False True]
  show ?thesis using i unfolding o n by simp
qed

text \<open>
  Claim C7: with a progress callback supplied, \<^verbatim>\<open>compare_folders\<close> calls it exactly once
  per path of the sorted union of the two key sets, ignored and unreadable paths
  included, in order: the \<open>n\<close>-th call (counting from 0) has the arguments
  \<open>(n + 1, total, path n)\<close>, where \<open>total\<close> is the length of the sorted union.
\<close>

theorem progress_once_per_path:
  "progress_calls (compare_folders fnmatch sftp_old sftp_new folder_old folder_new
       ignore_patterns hide_ignored True) =
     (let all = all_files (rel_map (list_files sftp_old folder_old) folder_old)
                  (rel_map (list_files sftp_new folder_new) folder_new)
      in map (\<lambda>n. (n + 1, length all, all ! n)) [0..<length all])"
proof -
  have "map (\<lambda>(i, rel). (i, length xs, rel)) (List.enumerate 1 xs)
      = map (\<lambda>n. (n + 1, length xs, xs ! n)) [0..<length xs]" for xs :: "string list"
    by (rule nth_equalityI) (simp_all add: nth_enumerate_eq)
  then show ?thesis by (simp add: compare_folders_progress Let_def)
qed

theorem progress_once_per_path_witness:
  "progress_calls (compare_folders ex_fnmatch ex_old ex_new ''/o/'' ''/n'' [''*.bin''] False True) =
     [(1, 6, ''a.txt''), (2, 6, ''b.bin''), (3, 6, ''c.txt''), (4, 6, ''d.txt''),
      (5, 6, ''e.txt''), (6, 6, ''u.txt'')]"
proof -
  have u: "[0..<6] = [0, 1, 2, 3, 4, 5::nat]" by code_simp
  from progress_once_per_path[of ex_fnmatch ex_old ex_new "''/o/''" "''/n''" "[''*.bin'']" False]
  show ?thesis unfolding ex_all_files Let_def by (simp add: u)
qed

text \<open>
  Claim C8: with \<^verbatim>\<open>hide_ignored\<close> false, the result has exactly one record per relative
  path of the union of the two key sets, each with one of the five statuses, in the
  sorted order of the paths; its length is the size of the union.
\<close>

theorem one_record_per_path:
  "(let fo = rel_map (list_files sftp_old folder_old) folder_old;
        fn = rel_map (list_files sftp_new folder_new) folder_new;
        ds = diffs (compare_folders fnmatch sftp_old sftp_new folder_old folder_new
                      ignore_patterns False progress_callback)
    in map fst ds = all_files fo fn
       \<and> sorted (map fst ds) \<and> distinct (map fst ds)
       \<and> set (map fst ds) = fst ` set fo \<union> fst ` set fn
       \<and> length ds = card (fst ` set fo \<union> fst ` set fn))"
proof -
  let ?fo = "rel_map (list_files sftp_old folder_old) folder_old"
  let ?fn = "rel_map (list_files sftp_new folder_new) folder_new"
  let ?ds = "diffs (compare_folders fnmatch sftp_old sftp_new folder_old folder_new
                      ignore_patterns False progress_callback)"
  have ds: "?ds = map (rel_record fnmatch sftp_old sftp_new ?fo ?fn ignore_patterns) (all_files ?fo ?fn)"
    by (simp add: compare_folders_diffs Let_def)
  have m: "map fst ?ds = all_files ?fo ?fn"
    unfolding ds by (simp add: comp_def)
  have l: "length ?ds = length (all_files ?fo ?fn)"
    unfolding ds by simp
  show ?thesis
    unfolding Let_def m l using all_files_props[of ?fo ?fn] by simp
qed

theorem one_record_per_path_witness:
  "map fst (diffs (compare_folders ex_fnmatch ex_old ex_new ''/o/'' ''/n'' [''*.bin''] False True))
     = [''a.txt'', ''b.bin'', ''c.txt'', ''d.txt'', ''e.txt'', ''u.txt'']
   \<and> length (diffs (compare_folders ex_fnmatch ex_old ex_new ''/o/'' ''/n'' [''*.bin''] False True))
     = card (fst ` set (rel_map (list_files ex_old ''/o/'') ''/o/'')
             \<union> fst ` set (rel_map (list_files ex_new ''/n'') ''/n''))"
  using one_record_per_path[of ex_old "''/o/''" ex_new "''/n''" ex_fnmatch "[''*.bin'']" True]
  unfolding Let_def ex_all_files by simp

lemma filter_eq_distinct:
  "distinct xs \<Longrightarrow> x \<in> set xs \<Longrightarrow> filter (\<lambda>r. r = x) xs = [x]"
  by (induction xs) (auto simp: filter_empty_conv)

lemma records_of_path:
  assumes "map_of (rel_map (list_files so ro) ro) rel \<noteq> None
           \<or> map_of (rel_map (list_files sn rn) rn) rel \<noteq> None"
    and "\<not> (should_ignore fm rel pats \<and> hide)"
  shows "filter (\<lambda>d. fst d = rel) (diffs (compare_folders fm so sn ro rn pats hide cb)) =
     [rel_record fm so sn (rel_map (list_files so ro) ro) (rel_map (list_files sn rn) rn) pats rel]"
proof -
  let ?fo = "rel_map (list_files so ro) ro" and ?fn = "rel_map (list_files sn rn) rn"
  let ?xs = "filter (\<lambda>rel. \<not> (should_ignore fm rel pats \<and> hide)) (all_files ?fo ?fn)"
  have d: "diffs (compare_folders fm so sn ro rn pats hide cb) = map (rel_record fm so sn ?fo ?fn pats) ?xs"
    by (simp add: compare_folders_diffs Let_def)
  have dist: "distinct ?xs" using all_files_props(2)[of ?fo ?fn] by simp
  have mem: "rel \<in> set ?xs" using assms by (simp add: all_files_iff)
  have "filter (\<lambda>d. fst d = rel) (map (rel_record fm so sn ?fo ?fn pats) ?xs)
      = map (rel_record fm so sn ?fo ?fn pats) (filter (\<lambda>r. r = rel) ?xs)"
    by (simp only: filter_map comp_def fst_rel_record)
  also have "\<dots> = [rel_record fm so sn ?fo ?fn pats rel]"
    by (simp only: filter_eq_distinct[OF dist mem] list.map)
  finally show ?thesis unfolding d .
qed

text \<open>
  Claim C9: for a relative path present on both sides whose reads take place (the path is
  not ignored), the records of that path in the result are exactly one record. When either
  read fails (\<open>None\<close>) that record has status \<open>Unreadable\<close> and no lines; when both reads
  succeed it has status \<open>SideBySide\<close> and the diff of the two line lists. So every record
  of the path in the result is that one: no record of the path has another status. A
  successful read of an empty file is \<open>Some []\<close>, which is not the failure marker: two
  empty files give \<open>SideBySide\<close> and never \<open>Unreadable\<close> (see the witness).
\<close>

theorem both_present_classification:
  assumes "map_of (rel_map (list_files sftp_old folder_old) folder_old) rel = Some po"
    and "map_of (rel_map (list_files sftp_new folder_new) folder_new) rel = Some pn"
    and "\<not> should_ignore fnmatch rel ignore_patterns"
  shows "(case (file_lines sftp_old po, file_lines sftp_new pn) of
            (Some lo, Some ln) \<Rightarrow> (rel, SideBySide, side_by_side_diff lo ln)
          | _ \<Rightarrow> (rel, Unreadable, []))
         \<in> set (diffs (compare_folders fnmatch sftp_old sftp_new folder_old folder_new
                   ignore_patterns hide_ignored progress_callback))
     \<and> (\<forall>d \<in> set (diffs (compare_folders fnmatch sftp_old sftp_new folder_old folder_new
                   ignore_patterns hide_ignored progress_callback)).
          fst d = rel \<longrightarrow>
            d = (case (file_lines sftp_old po, file_lines sftp_new pn) of
                   (Some lo, Some ln) \<Rightarrow> (rel, SideBySide, side_by_side_diff lo ln)
                 | _ \<Rightarrow> (rel, Unreadable, [])))
     \<and> filter (\<lambda>d. fst d = rel)
          (diffs (compare_folders fnmatch sftp_old sftp_new folder_old folder_new
                   ignore_patterns hide_ignored progress_callback)) =
        [case (file_lines sftp_old po, file_lines sftp_new pn) of
           (Some lo, Some ln) \<Rightarrow> (rel, SideBySide, side_by_side_diff lo ln)
         | _ \<Rightarrow> (rel, Unreadable, [])]"
proof -
  let ?fo = "rel_map (list_files sftp_old folder_old) folder_old"
  let ?fn = "rel_map (list_files sftp_new folder_new) folder_new"
  let ?d = "rel_record fnmatch sftp_old sftp_new ?fo ?fn ignore_patterns rel"
  let ?ds = "diffs (compare_folders fnmatch sftp_old sftp_new folder_old folder_new
                   ignore_patterns hide_ignored progress_callback)"
  have t: "truthy (Some po)" "truthy (Some pn)"
    using truthy_rel_map[of "list_files sftp_old folder_old" folder_old rel]
      truthy_rel_map[of "list_files sftp_new folder_new" folder_new rel]
    unfolding assms(1,2) by simp_all
  have d: "?d = (case (file_lines sftp_old po, file_lines sftp_new pn) of
                     (Some lo, Some ln) \<Rightarrow> (rel, SideBySide, side_by_side_diff lo ln)
                   | _ \<Rightarrow> (rel, Unreadable, []))"
    using t assms by (simp add: rel_record_def Let_def read_file_lines_def)
  have f: "filter (\<lambda>d. fst d = rel) ?ds = [?d]"
    using assms by (intro records_of_path) simp_all
  have m: "?d \<in> set ?ds"
  proof -
    have "?d \<in> set (filter (\<lambda>d. fst d = rel) ?ds)" unfolding f by simp
    then show ?thesis by simp
  qed
  have u: "\<forall>x \<in> set ?ds. fst x = rel \<longrightarrow> x = ?d"
  proof (intro ballI impI)
    fix x assume "x \<in> set ?ds" "fst x = rel"
    then have "x \<in> set (filter (\<lambda>d. fst d = rel) ?ds)" by simp
    then show "x = ?d" unfolding f by simp
  qed
  from m u f show ?thesis unfolding d by blast
qed

theorem both_present_classification_witness:
  "file_lines ex_old ''/o/u.txt'' = None
   \<and> filter (\<lambda>d. fst d = ''u.txt'') (diffs
       (compare_folders ex_fnmatch ex_old ex_new ''/o/'' ''/n'' [''*.bin''] False True)) =
       [(''u.txt'', Unreadable, [])]
   \<and> file_lines ex_old ''/o/e.txt'' = Some [] \<and> file_lines ex_new ''/n/e.txt'' = Some []
   \<and> filter (\<lambda>d. fst d = ''e.txt'') (diffs
       (compare_folders ex_fnmatch ex_old ex_new ''/o/'' ''/n'' [''*.bin''] False True)) =
       [(''e.txt'', SideBySide, [])]
   \<and> list_all (\<lambda>d. fst d = ''e.txt'' \<longrightarrow> d = (''e.txt'', SideBySide, [])) (diffs
       (compare_folders ex_fnmatch ex_old ex_new ''/o/'' ''/n'' [''*.bin''] False True))"
proof -
  have i: "\<not> should_ignore ex_fnmatch ''e.txt'' [''*.bin'']" by code_simp
  have o: "map_of (rel_map (list_files ex_old ''/o/'') ''/o/'') ''e.txt'' = Some ''/o/e.txt''"
    by (simp add: ex_rel_map_old)
  have n: "map_of (rel_map (list_files ex_new ''/n'') ''/n'') ''e.txt'' = Some ''/n/e.txt''"
    by (simp add: ex_rel_map_new)
  have lo: "file_lines ex_old ''/o/e.txt'' = Some []" by code_simp
  have ln: "file_lines ex_new ''/n/e.txt'' = Some []" by code_simp
  have iu: "\<not> should_ignore ex_fnmatch ''u.txt'' [''*.bin'']" by code_simp
  have ou: "map_of (rel_map (list_files ex_old ''/o/'') ''/o/'') ''u.txt'' = Some ''/o/u.txt''"
    by (simp add: ex_rel_map_old)
  have nu: "map_of (rel_map (list_files ex_new ''/n'') ''/n'') ''u.txt'' = Some ''/n/u.txt''"
    by (simp add: ex_rel_map_new)
  have lu: "file_lines ex_old ''/o/u.txt'' = None" by code_simp
  from both_present_classification[OF o n i, of False True]
  have e: "filter (\<lambda>d. fst d = ''e.txt'') (diffs
       (compare_folders ex_fnmatch ex_old ex_new ''/o/'' ''/n'' [''*.bin''] False True)) =
       [(''e.txt'', SideBySide, [])]"
    and a: "\<forall>d\<in>set (diffs
       (compare_folders ex_fnmatch ex_old ex_new ''/o/'' ''/n'' [''*.bin''] False True)).
       fst d = ''e.txt'' \<longrightarrow> d = (''e.txt'', SideBySide, [])"
    unfolding lo ln by (simp_all add: side_by_side_diff_empty)
  from both_present_classification[OF ou nu iu, of False True]
  have u: "filter (\<lambda>d. fst d = ''u.txt'') (diffs
       (compare_folders ex_fnmatch ex_old ex_new ''/o/'' ''/n'' [''*.bin''] False True)) =
       [(''u.txt'', Unreadable, [])]"
    unfolding lu by simp
  from e a u lo ln lu show ?thesis unfolding list_all_iff by blast
qed

text \<open>
  Claim C10: every record whose status is not \<open>SideBySide\<close> (that is \<open>Ignored\<close>,
  \<open>OnlyInOld\<close>, \<open>OnlyInNew\<close> or \<open>Unreadable\<close>) has an empty list of aligned lines.
\<close>

theorem only_diffed_records_have_lines:
  "\<forall>(rel, status, ls) \<in> set (diffs (compare_folders fnmatch sftp_old sftp_new folder_old
        folder_new ignore_patterns hide_ignored progress_callback)).
     status \<noteq> SideBySide \<longrightarrow> ls = []"
proof (clarify)
  fix rel status ls
  assume "(rel, status, ls) \<in> set (diffs (compare_folders fnmatch sftp_old sftp_new folder_old
        folder_new ignore_patterns hide_ignored progress_callback))"
    and s: "status \<noteq> SideBySide"
  from record_unique[OF this(1), symmetric] rel_record_lines s show "ls = []" by blast
qed

theorem only_diffed_records_have_lines_witness:
  "(''c.txt'', OnlyInOld, []) \<in> set (diffs
       (compare_folders ex_fnmatch ex_old ex_new ''/o/'' ''/n'' [''*.bin''] False True))
   \<and> list_all (\<lambda>(rel, status, ls). status \<noteq> SideBySide \<longrightarrow> ls = []) (diffs
       (compare_folders ex_fnmatch ex_old ex_new ''/o/'' ''/n'' [''*.bin''] False True))"
proof -
  have "(''c.txt'', OnlyInOld, []) \<in> set (diffs
       (compare_folders ex_fnmatch ex_old ex_new ''/o/'' ''/n'' [''*.bin''] False True))"
    by (simp add: ex_run1)
  with only_diffed_records_have_lines[of ex_fnmatch ex_old ex_new "''/o/''" "''/n''" "[''*.bin'']" False True]
  show ?thesis unfolding list_all_iff by blast
qed

section \<open>Matching a sequence against itself\<close>

lemma dlen_pos_iff: "dlen a i j > 0 \<longleftrightarrow> a ! i = a ! j \<and> \<not> popular a (a ! j)"
  by (induction a i j rule: dlen.induct) auto

lemma dlen_zero: "\<not> (a ! i = a ! j \<and> \<not> popular a (a ! j)) \<Longrightarrow> dlen a i j = 0"
  using dlen_pos_iff[of a i j] by auto

lemma dlen_step:
  "a ! i = a ! j \<Longrightarrow> \<not> popular a (a ! j) \<Longrightarrow> dlen a i j = prevlen a i j + 1"
  by (induction a i j rule: dlen.induct) (auto simp: prevlen_def)

lemma dlen_self_pos: "\<not> popular a (a ! i) \<Longrightarrow> dlen a i i > 0"
  by (simp add: dlen_pos_iff)

lemma dlen_le_diag: "dlen a i j \<le> dlen a j j \<and> dlen a i j \<le> dlen a i i"
proof (induction a i j rule: dlen.induct)
  case (1 a j)
  show ?case
  proof (cases "a ! 0 = a ! j \<and> \<not> popular a (a ! j)")
    case True
    then have "dlen a j j > 0" "dlen a 0 0 > 0" by (simp_all add: dlen_pos_iff)
    with True show ?thesis by simp
  next
    case False
    then show ?thesis by auto
  qed
next
  case (2 a i)
  show ?case
  proof (cases "a ! Suc i = a ! 0 \<and> \<not> popular a (a ! 0)")
    case True
    then have "dlen a (Suc i) (Suc i) > 0" "dlen a 0 0 > 0" by (simp_all add: dlen_pos_iff)
    with True show ?thesis by simp
  next
    case False
    then show ?thesis by auto
  qed
next
  case (3 a i j)
  show ?case
  proof (cases "a ! Suc i = a ! Suc j \<and> \<not> popular a (a ! Suc j)")
    case True
    with 3 show ?thesis by simp
  next
    case False
    then show ?thesis by auto
  qed
qed

lemma j2lenget_j2val: "j2lenget m j = (if j = 0 then 0 else j2val m (j - 1))"
  by (simp add: j2lenget_def j2val_def)

lemma flm_row_diag:
  assumes prev: "\<forall>j<n. j2lenget prev j = prevlen a i j"
    and js: "sorted js" "\<forall>j\<in>set js. j < n \<and> a ! j = a ! i \<and> \<not> popular a (a ! i)"
    and done_rows: "\<forall>i'<i. \<forall>j'<n. dlen a i' j' \<le> bs"
    and done_row: "\<forall>j'<n. j' \<notin> set js \<longrightarrow> dlen a i j' \<le> bs \<and> j2val new j' = dlen a i j'"
    and diag: "bi = bj"
    and i: "i < n"
    and res: "flm_row 0 n prev i js (new, bi, bj, bs) = (new', bi', bj', bs')"
  shows "bi' = bj' \<and> (\<forall>i'<i. \<forall>j'<n. dlen a i' j' \<le> bs')
     \<and> (\<forall>j'<n. dlen a i j' \<le> bs' \<and> j2val new' j' = dlen a i j')"
  using js done_rows done_row diag res
proof (induction js arbitrary: new bi bj bs)
  case Nil
  then show ?case by simp
next
  case (Cons j js)
  from Cons.prems(2) have j: "j < n" "a ! j = a ! i" "\<not> popular a (a ! i)" by simp_all
  define k where "k = j2lenget prev j + 1"
  have k: "k = dlen a i j"
    using prev j dlen_step[of a i j] by (simp add: k_def)
  have sorted': "sorted js" and js': "\<forall>j\<in>set js. j < n \<and> a ! j = a ! i \<and> \<not> popular a (a ! i)"
    using Cons.prems(1,2) by simp_all
  have row': "\<forall>j'<n. j' \<notin> set js \<longrightarrow>
      dlen a i j' \<le> max bs k \<and> j2val (new(j \<mapsto> k)) j' = dlen a i j'"
  proof (intro allI impI)
    fix j' assume a: "j' < n" "j' \<notin> set js"
    show "dlen a i j' \<le> max bs k \<and> j2val (new(j \<mapsto> k)) j' = dlen a i j'"
    proof (cases "j' = j")
      case True
      then show ?thesis using k by (simp add: j2val_def)
    next
      case False
      with a have "j' \<notin> set (j # js)" by simp
      with Cons.prems(4) a(1) have "dlen a i j' \<le> bs \<and> j2val new j' = dlen a i j'" by blast
      then show ?thesis using False by (auto simp: j2val_def)
    qed
  qed
  show ?case
  proof (cases "k > bs")
    case True
    have ji: "j = i"
    proof (rule ccontr)
      assume ne: "j \<noteq> i"
      show False
      proof (cases "j < i")
        case True
        with Cons.prems(3) j(1) have "dlen a j j \<le> bs" by blast
        moreover have "dlen a i j \<le> dlen a j j" using dlen_le_diag[of a i j] by simp
        ultimately show False using \<open>k > bs\<close> k by simp
      next
        case False
        with ne have lt: "i < j" by simp
        have "i \<notin> set (j # js)" using Cons.prems(1) lt by auto
        with Cons.prems(4) i have "dlen a i i \<le> bs" by blast
        moreover have "dlen a i j \<le> dlen a i i" using dlen_le_diag[of a i j] by simp
        ultimately show False using \<open>k > bs\<close> k by simp
      qed
    qed
    have r: "flm_row 0 n prev i js (new(j \<mapsto> k), i + 1 - k, j + 1 - k, k) = (new', bi', bj', bs')"
      using Cons.prems(6) j(1) True by (simp add: k_def Let_def)
    have rows: "\<forall>i'<i. \<forall>j'<n. dlen a i' j' \<le> k"
      using Cons.prems(3) True by (meson le_trans less_imp_le)
    have row: "\<forall>j'<n. j' \<notin> set js \<longrightarrow> dlen a i j' \<le> k \<and> j2val (new(j \<mapsto> k)) j' = dlen a i j'"
      using row' True by (simp add: max_def)
    have d: "i + 1 - k = j + 1 - k" using ji by simp
    from Cons.IH[OF sorted' js' rows row d r] show ?thesis .
  next
    case False
    have r: "flm_row 0 n prev i js (new(j \<mapsto> k), bi, bj, bs) = (new', bi', bj', bs')"
      using Cons.prems(6) j(1) False by (simp add: k_def Let_def)
    have row: "\<forall>j'<n. j' \<notin> set js \<longrightarrow> dlen a i j' \<le> bs \<and> j2val (new(j \<mapsto> k)) j' = dlen a i j'"
      using row' False by (simp add: max_def)
    from Cons.IH[OF sorted' js' Cons.prems(3) row Cons.prems(5) r] show ?thesis .
  qed
qed

lemma b2j_sorted: "sorted (b2j b x)"
  by (simp add: b2j_def sorted_wrt_filter)

lemma b2j_elem: "j \<in> set (b2j b x) \<longleftrightarrow> j < length b \<and> b ! j = x \<and> \<not> popular b x"
  by (auto simp: b2j_def)

lemma flm_rows_diag:
  assumes "\<forall>j<length a. j2lenget prev j = prevlen a i j"
    and "\<forall>i'<i. \<forall>j'<length a. dlen a i' j' \<le> bs"
    and "bi = bj"
  shows "fst (flm_rows a a 0 (length a) [i..<length a] (prev, bi, bj, bs))
       = fst (snd (flm_rows a a 0 (length a) [i..<length a] (prev, bi, bj, bs)))"
  using assms
proof (induction "length a - i" arbitrary: i prev bi bj bs)
  case 0
  then show ?case by simp
next
  case (Suc m)
  then have lt: "i < length a" by simp
  let ?js = "b2j a (a ! i)"
  obtain new' bi' bj' bs' where
    r: "flm_row 0 (length a) prev i ?js (Map.empty, bi, bj, bs) = (new', bi', bj', bs')"
    by (metis prod_cases4)
  have js: "\<forall>j\<in>set ?js. j < length a \<and> a ! j = a ! i \<and> \<not> popular a (a ! i)"
    by (simp add: b2j_elem)
  have row: "\<forall>j'<length a. j' \<notin> set ?js \<longrightarrow>
      dlen a i j' \<le> bs \<and> j2val Map.empty j' = dlen a i j'"
  proof (intro allI impI)
    fix j' assume "j' < length a" "j' \<notin> set ?js"
    then have "\<not> (a ! i = a ! j' \<and> \<not> popular a (a ! j'))"
      by (auto simp: b2j_elem)
    from dlen_zero[OF this] show "dlen a i j' \<le> bs \<and> j2val Map.empty j' = dlen a i j'"
      by (simp add: j2val_def)
  qed
  from flm_row_diag[OF Suc.prems(1) b2j_sorted js Suc.prems(2) row Suc.prems(3) lt r]
  have d: "bi' = bj'" and rows: "\<forall>i'<i. \<forall>j'<length a. dlen a i' j' \<le> bs'"
    and cur: "\<forall>j'<length a. dlen a i j' \<le> bs' \<and> j2val new' j' = dlen a i j'"
    by blast+
  have prev': "\<forall>j<length a. j2lenget new' j = prevlen a (Suc i) j"
  proof (intro allI impI)
    fix j assume "j < length a"
    then show "j2lenget new' j = prevlen a (Suc i) j"
      using cur by (cases j) (simp_all add: j2lenget_j2val prevlen_def)
  qed
  have rows': "\<forall>i'<Suc i. \<forall>j'<length a. dlen a i' j' \<le> bs'"
    using rows cur by (auto simp: less_Suc_eq)
  have m: "m = length a - Suc i" using Suc.hyps(2) by simp
  from Suc.hyps(1)[OF m prev' rows' d]
  show ?case using lt r by (simp add: upt_conv_Cons)
qed

lemma extend_lo_self: "extend_lo False a a 0 0 (d, d, s) = (0, 0, s + d)"
proof (induction d arbitrary: s)
  case 0
  show ?case by (simp add: extend_lo_stop)
next
  case (Suc d)
  show ?case by (subst extend_lo.simps) (simp add: isbjunk_def Suc)
qed

lemma extend_hi_self: "s \<le> n \<Longrightarrow> extend_hi False a a n n (0, 0, s) = (0, 0, n)"
proof (induction "n - s" arbitrary: s)
  case 0
  then show ?case by (simp add: extend_hi_stop)
next
  case (Suc m)
  then have lt: "s < n" and "Suc s \<le> n" "m = n - Suc s" by simp_all
  from Suc.hyps(1)[OF this(3,2)] lt show ?case
    by (subst extend_hi.simps) (simp add: isbjunk_def)
qed

lemma find_longest_match_self:
  "find_longest_match a a 0 (length a) 0 (length a) = (0, 0, length a)"
proof -
  let ?n = "length a"
  obtain bi bj bs where r: "flm_rows a a 0 ?n [0..<?n] (Map.empty, 0, 0, 0) = (bi, bj, bs)"
    by (metis prod_cases3)
  have "\<forall>j<?n. j2lenget Map.empty j = prevlen a 0 j"
    by (simp add: j2lenget_def prevlen_def)
  from flm_rows_diag[where a = a and i = 0 and prev = Map.empty and bi = 0 and bj = 0 and bs = 0,
      OF this] r
  have d: "bi = bj" by simp
  have "in_box 0 ?n 0 ?n (0, 0, 0)" by (simp add: in_box_def)
  from flm_rows_inv[OF j2len_ok_empty this order_refl, of a a] r
  have b: "bi + bs \<le> ?n" by (simp add: in_box_def)
  show ?thesis
    unfolding find_longest_match_def Let_def r d
    using b d by (simp add: extend_lo_self extend_hi_self extend_lo_stop extend_hi_stop)
qed

lemma get_opcodes_self:
  "get_opcodes a a = (if a = [] then [] else [(Equal, 0, length a, 0, length a)])"
proof (cases "a = []")
  case True
  have g: "gmb_loop a a [(0, length a, 0, length a)] [] = []"
    using find_longest_match_self[of a] True by (simp add: gmb_loop.simps)
  show ?thesis
    unfolding get_opcodes_def get_matching_blocks_def Let_def g using True by simp
next
  case False
  then have n: "length a \<noteq> 0" by simp
  have g: "gmb_loop a a [(0, length a, 0, length a)] [] = [(0, 0, length a)]"
    using find_longest_match_self[of a] n by (simp add: gmb_loop.simps)
  show ?thesis
    unfolding get_opcodes_def get_matching_blocks_def Let_def g using False
    by (simp add: Let_def)
qed

lemma slice_all: "slice xs 0 (length xs) = xs"
  by (simp add: slice_def)

text \<open>
  Claim C2: for every sequence of lines \<open>a\<close>, the diff of \<open>a\<close> against itself pairs every
  line with itself with status \<open>Unchanged\<close>, in order; so it yields only \<open>Unchanged\<close> pairs
  and has the length of \<open>a\<close>. This holds also where the matcher's popularity heuristic
  removes lines from its index (200 lines or more).
\<close>

theorem side_by_side_diff_self:
  "side_by_side_diff a a = map (\<lambda>l. (l, l, Unchanged)) a"
proof (cases "a = []")
  case True
  then show ?thesis by (simp add: side_by_side_diff_def get_opcodes_self)
next
  case False
  have "zip a a = map (\<lambda>l. (l, l)) a" by (induction a) simp_all
  then show ?thesis using False
    by (simp add: side_by_side_diff_def get_opcodes_self chunk_rows_def slice_all status_of_def
        comp_def)
qed

theorem side_by_side_diff_self_witness:
  "side_by_side_diff [''a'', ''b'', ''a''] [''a'', ''b'', ''a''] =
     [(''a'', ''a'', Unchanged), (''b'', ''b'', Unchanged), (''a'', ''a'', Unchanged)]
   \<and> length (side_by_side_diff [''a'', ''b'', ''a''] [''a'', ''b'', ''a'']) = length [''a'', ''b'', ''a'']"
  using side_by_side_diff_self[of "[''a'', ''b'', ''a'']"] by simp

section \<open>The opcodes cover both sequences in order\<close>

lemma apart_sym: "apart x y \<Longrightarrow> apart y x"
  by (auto simp: apart_def)

lemma apart_sub: "apart x r \<Longrightarrow> sub_box r s \<Longrightarrow> apart x s"
  by (cases x; cases r; cases s) (auto simp: apart_def box_prec_def sub_box_def)

lemma sorted_wrt_apart_replace:
  assumes "sorted_wrt apart (xs @ r # rest)"
    and "\<forall>s\<in>set subs. sub_box r s"
    and "sorted_wrt apart subs"
  shows "sorted_wrt apart (xs @ subs @ rest)"
proof -
  from assms(1) have xs: "sorted_wrt apart xs" and rest: "sorted_wrt apart rest"
    and xr: "\<forall>x\<in>set xs. apart x r" and rr: "\<forall>y\<in>set rest. apart r y"
    and xy: "\<forall>x\<in>set xs. \<forall>y\<in>set rest. apart x y"
    by (auto simp: sorted_wrt_append)
  have 1: "\<forall>x\<in>set xs. \<forall>s\<in>set subs. apart x s"
    using xr assms(2) apart_sub by blast
  have 2: "\<forall>s\<in>set subs. \<forall>y\<in>set rest. apart s y"
    using rr assms(2) apart_sub apart_sym by blast
  show ?thesis
    using xs rest xy assms(3) 1 2 by (auto simp: sorted_wrt_append)
qed

lemma sorted_wrt_apart_drop:
  assumes "sorted_wrt apart (xs @ r # rest)"
  shows "sorted_wrt apart (xs @ rest)"
  using assms by (auto simp: sorted_wrt_append)

lemma gmb_step_subs:
  assumes "alo \<le> i" "i + k \<le> ahi" "blo \<le> j" "j + k \<le> bhi"
  defines "subs \<equiv> box_of (i, j, k) #
     (if i + k < ahi \<and> j + k < bhi then [(i + k, ahi, j + k, bhi)] else []) @
     (if alo < i \<and> blo < j then [(alo, i, blo, j)] else [])"
  shows "(\<forall>s\<in>set subs. sub_box (alo, ahi, blo, bhi) s) \<and> sorted_wrt apart subs"
  using assms(1-4) unfolding subs_def
  by (auto simp: sub_box_def box_of_def apart_def box_prec_def)

lemma gmb_loop_good:
  assumes "gmb_inv queue ms" "blocks_ok la lb ms" "queue_ok la lb queue"
  shows "gmb_inv [] (gmb_loop a b queue ms) \<and> blocks_ok la lb (gmb_loop a b queue ms)"
  using assms
proof (induction a b queue ms rule: gmb_loop.induct)
  case (1 a b matching_blocks)
  then show ?case by (simp add: gmb_loop.simps)
next
  case (2 a b alo ahi blo bhi queue ms)
  obtain i j k where f: "find_longest_match a b alo ahi blo bhi = (i, j, k)"
    by (metis prod_cases3)
  show ?case
  proof (cases "k = 0")
    case True
    have inv: "gmb_inv queue ms"
      using "2.prems"(1) sorted_wrt_apart_drop unfolding gmb_inv_def by blast
    have q: "queue_ok la lb queue" using "2.prems"(3) by (simp add: queue_ok_def)
    from "2.IH"(2)[of i "(j, k)" j k, OF f[symmetric] refl _ inv "2.prems"(2) q] True f
    show ?thesis by (simp add: gmb_loop.simps)
  next
    case False
    from find_longest_match_bounds[OF f False]
    have b: "alo \<le> i" "i + k \<le> ahi" "blo \<le> j" "j + k \<le> bhi" by simp_all
    let ?new = "(if i + k < ahi \<and> j + k < bhi then [(i + k, ahi, j + k, bhi)] else []) @
                (if alo < i \<and> blo < j then [(alo, i, blo, j)] else [])"
    from gmb_step_subs[OF b]
    have subs: "\<forall>s\<in>set (box_of (i, j, k) # ?new). sub_box (alo, ahi, blo, bhi) s"
      and ap: "sorted_wrt apart (box_of (i, j, k) # ?new)" by simp_all
    have "sorted_wrt apart (map box_of ms @ (box_of (i, j, k) # ?new) @ queue)"
      using sorted_wrt_apart_replace[OF _ subs ap, of "map box_of ms" queue] "2.prems"(1)
      unfolding gmb_inv_def by simp
    then have inv: "gmb_inv (?new @ queue) (ms @ [(i, j, k)])"
      unfolding gmb_inv_def by simp
    have hi: "ahi \<le> la" "bhi \<le> lb" using "2.prems"(3) by (simp_all add: queue_ok_def)
    have bl: "blocks_ok la lb (ms @ [(i, j, k)])"
      using "2.prems"(2) False b hi by (auto simp: blocks_ok_def)
    have q: "queue_ok la lb (?new @ queue)"
      using "2.prems"(3) b hi by (auto simp: queue_ok_def)
    from "2.IH"(1)[of i "(j, k)" j k, OF f[symmetric] refl False] inv bl q False f
    show ?thesis by (simp add: gmb_loop.simps)
  qed
qed

lemma apart_box_of: "apart (box_of m1) (box_of m2) \<longleftrightarrow> prec m1 m2 \<or> prec m2 m1"
  by (cases m1; cases m2) (auto simp: apart_def box_prec_def box_of_def prec_def)

lemma not_prec_self: "snd (snd m) \<noteq> 0 \<Longrightarrow> \<not> prec m m"
  by (cases m) (auto simp: prec_def)

lemma prec_less: "prec y x \<Longrightarrow> snd (snd y) \<noteq> 0 \<Longrightarrow> \<not> x \<le> y"
  by (cases x; cases y) (auto simp: prec_def)

lemma blocks_apart_distinct:
  assumes "sorted_wrt apart (map box_of ms)" "\<forall>m\<in>set ms. snd (snd m) \<noteq> 0"
  shows "distinct ms \<and> (\<forall>x\<in>set ms. \<forall>y\<in>set ms. x \<noteq> y \<longrightarrow> prec x y \<or> prec y x)"
  using assms
proof (induction ms)
  case Nil
  show ?case by simp
next
  case (Cons m ms)
  then have IH: "distinct ms" "\<forall>x\<in>set ms. \<forall>y\<in>set ms. x \<noteq> y \<longrightarrow> prec x y \<or> prec y x"
    by simp_all
  from Cons.prems(1) have hd: "\<forall>y\<in>set ms. prec m y \<or> prec y m"
    by (simp add: apart_box_of)
  have "m \<notin> set ms"
  proof
    assume "m \<in> set ms"
    with hd have "prec m m" by blast
    with not_prec_self[of m] Cons.prems(2) show False by simp
  qed
  with IH hd show ?case by auto
qed

lemma sorted_blocks_chain:
  assumes "sorted ss" "distinct ss"
    and "\<forall>x\<in>set ss. \<forall>y\<in>set ss. x \<noteq> y \<longrightarrow> prec x y \<or> prec y x"
    and "\<forall>m\<in>set ss. snd (snd m) \<noteq> 0"
  shows "sorted_wrt prec ss"
  using assms
proof (induction ss)
  case Nil
  show ?case by simp
next
  case (Cons x ss)
  have "prec x y" if "y \<in> set ss" for y
  proof -
    from that Cons.prems(1,2) have "x \<le> y" "x \<noteq> y" by auto
    moreover from that Cons.prems(3) \<open>x \<noteq> y\<close> have "prec x y \<or> prec y x" by simp
    moreover from that Cons.prems(4) have "snd (snd y) \<noteq> 0" by simp
    ultimately show ?thesis using prec_less[of y x] by blast
  qed
  moreover have "sorted_wrt prec ss"
    using Cons by simp
  ultimately show ?case by simp
qed

lemma sorted_gmb_chain:
  "sorted_wrt prec (sort (gmb_loop a b [(0, length a, 0, length b)] []))
   \<and> ends_ok (length a) (length b) (sort (gmb_loop a b [(0, length a, 0, length b)] []))"
proof -
  let ?ms = "gmb_loop a b [(0, length a, 0, length b)] []"
  have "gmb_inv [(0, length a, 0, length b)] []" by (simp add: gmb_inv_def)
  moreover have "blocks_ok (length a) (length b) []" by (simp add: blocks_ok_def)
  moreover have "queue_ok (length a) (length b) [(0, length a, 0, length b)]"
    by (simp add: queue_ok_def)
  ultimately have g: "gmb_inv [] ?ms" "blocks_ok (length a) (length b) ?ms"
    using gmb_loop_good by blast+
  from g(2) have nz: "\<forall>m\<in>set ?ms. snd (snd m) \<noteq> 0"
    by (auto simp: blocks_ok_def)
  from g(1) have "sorted_wrt apart (map box_of ?ms)" by (simp add: gmb_inv_def)
  from blocks_apart_distinct[OF this nz]
  have d: "distinct ?ms" "\<forall>x\<in>set ?ms. \<forall>y\<in>set ?ms. x \<noteq> y \<longrightarrow> prec x y \<or> prec y x"
    by simp_all
  have "sorted_wrt prec (sort ?ms)"
    by (rule sorted_blocks_chain) (use d nz in simp_all)
  moreover have "ends_ok (length a) (length b) (sort ?ms)"
    using g(2) by (auto simp: ends_ok_def blocks_ok_def)
  ultimately show ?thesis by simp
qed

lemma collapse_chain:
  assumes "sorted_wrt prec (acc @ cur # rest)" "ends_ok la lb (acc @ cur # rest)"
    and "collapse rest cur acc = (acc', cur')"
  shows "sorted_wrt prec (acc' @ [cur']) \<and> ends_ok la lb (acc' @ [cur'])"
  using assms
proof (induction rest arbitrary: cur acc)
  case Nil
  then show ?case by (cases cur) simp
next
  case (Cons m rest)
  obtain i1 j1 k1 where cur: "cur = (i1, j1, k1)" by (cases cur)
  obtain i2 j2 k2 where m: "m = (i2, j2, k2)" by (cases m)
  show ?case
  proof (cases "i1 + k1 = i2 \<and> j1 + k1 = j2")
    case True
    from Cons.prems(1) have A: "sorted_wrt prec acc" and R: "sorted_wrt prec rest"
      and AC: "\<forall>x\<in>set acc. prec x (i1, j1, k1)"
      and AR: "\<forall>x\<in>set acc. \<forall>y\<in>set rest. prec x y"
      and MR: "\<forall>y\<in>set rest. prec (i2, j2, k2) y"
      unfolding cur m by (auto simp: sorted_wrt_append)
    have AC': "\<forall>x\<in>set acc. prec x (i1, j1, k1 + k2)"
      using AC by (auto simp: prec_def)
    have CR': "\<forall>y\<in>set rest. prec (i1, j1, k1 + k2) y"
      using MR True by (auto simp: prec_def add.assoc)
    have s: "sorted_wrt prec (acc @ (i1, j1, k1 + k2) # rest)"
      using A R AC' CR' AR by (simp add: sorted_wrt_append)
    have e: "ends_ok la lb (acc @ (i1, j1, k1 + k2) # rest)"
      using Cons.prems(2) True unfolding cur m by (auto simp: ends_ok_def)
    have c: "collapse rest (i1, j1, k1 + k2) acc = (acc', cur')"
      using Cons.prems(3) True unfolding cur m by simp
    from Cons.IH[OF s e c] show ?thesis .
  next
    case False
    let ?acc = "if k1 \<noteq> 0 then acc @ [(i1, j1, k1)] else acc"
    have s: "sorted_wrt prec (?acc @ (i2, j2, k2) # rest)"
      using Cons.prems(1) unfolding cur m by (auto simp: sorted_wrt_append)
    have e: "ends_ok la lb (?acc @ (i2, j2, k2) # rest)"
      using Cons.prems(2) unfolding cur m by (auto simp: ends_ok_def)
    have c: "collapse rest (i2, j2, k2) ?acc = (acc', cur')"
      using Cons.prems(3) False unfolding cur m by auto
    from Cons.IH[OF s e c] show ?thesis .
  qed
qed

text \<open>The matching blocks are ascending in both sequences and end with the sentinel.\<close>

lemma get_matching_blocks_chain:
  "\<exists>ms. get_matching_blocks a b = ms @ [(length a, length b, 0)]
     \<and> sorted_wrt prec (ms @ [(length a, length b, 0)])"
proof -
  let ?ss = "sort (gmb_loop a b [(0, length a, 0, length b)] [])"
  obtain acc' i1 j1 k1 where c: "collapse ?ss (0, 0, 0) [] = (acc', (i1, j1, k1))"
    by (metis prod_cases3)
  have s0: "sorted_wrt prec ([] @ (0, 0, 0) # ?ss)"
    using sorted_gmb_chain[of a b] by (auto simp: prec_def)
  have e0: "ends_ok (length a) (length b) ([] @ (0, 0, 0) # ?ss)"
    using sorted_gmb_chain[of a b] by (auto simp: ends_ok_def)
  from collapse_chain[OF s0 e0 c]
  have s: "sorted_wrt prec (acc' @ [(i1, j1, k1)])"
    and e: "ends_ok (length a) (length b) (acc' @ [(i1, j1, k1)])" by simp_all
  let ?ms = "if k1 \<noteq> 0 then acc' @ [(i1, j1, k1)] else acc'"
  have g: "get_matching_blocks a b = ?ms @ [(length a, length b, 0)]"
    using c by (simp add: get_matching_blocks_def Let_def)
  have "sorted_wrt prec ?ms" using s by (auto simp: sorted_wrt_append)
  moreover have "\<forall>m\<in>set ?ms. prec m (length a, length b, 0)"
    using e by (auto simp: ends_ok_def prec_def)
  ultimately have "sorted_wrt prec (?ms @ [(length a, length b, 0)])"
    by (simp add: sorted_wrt_append)
  with g show ?thesis by blast
qed

lemma opcodes_loop_acc:
  "opcodes_loop ms i j answer = answer @ opcodes_loop ms i j []"
proof (induction ms arbitrary: i j answer)
  case Nil
  show ?case by simp
next
  case (Cons m ms)
  obtain ai bj sz where m: "m = (ai, bj, sz)" by (cases m)
  show ?case
    unfolding m opcodes_loop.simps Let_def
    by (subst Cons.IH, subst (2) Cons.IH) simp
qed

lemma opcodes_loop_Cons:
  "opcodes_loop ((ai, bj, sz) # ms) i j [] =
     block_ops i j (ai, bj, sz) @ opcodes_loop ms (ai + sz) (bj + sz) []"
  unfolding opcodes_loop.simps Let_def
  by (subst opcodes_loop_acc) (simp add: block_ops_def)

declare opcodes_loop.simps(2) [simp del]

lemma contiguous_append:
  "contiguous i j xs i' j' \<Longrightarrow> contiguous i' j' ys i'' j'' \<Longrightarrow> contiguous i j (xs @ ys) i'' j''"
  by (induction i j xs i' j' rule: contiguous.induct) auto

lemma block_ops_contiguous:
  "i \<le> ai \<Longrightarrow> j \<le> bj \<Longrightarrow> contiguous i j (block_ops i j (ai, bj, sz)) (ai + sz) (bj + sz)"
  by (auto simp: block_ops_def opcode_ok_def)

lemma opcodes_loop_contiguous:
  assumes "sorted_wrt prec (ms @ [(la, lb, 0)])"
    and "\<forall>m\<in>set (ms @ [(la, lb, 0)]). i \<le> fst m \<and> j \<le> fst (snd m)"
  shows "contiguous i j (opcodes_loop (ms @ [(la, lb, 0)]) i j []) la lb"
  using assms
proof (induction ms arbitrary: i j)
  case Nil
  then have "contiguous i j (block_ops i j (la, lb, 0)) (la + 0) (lb + 0)"
    by (intro block_ops_contiguous) simp_all
  then show ?case by (simp add: opcodes_loop_Cons)
next
  case (Cons m ms)
  obtain ai bj sz where m: "m = (ai, bj, sz)" by (cases m)
  from Cons.prems(2) have le: "i \<le> ai" "j \<le> bj" by (simp_all add: m)
  from Cons.prems(1) have s: "sorted_wrt prec (ms @ [(la, lb, 0)])"
    and p: "\<forall>y\<in>set (ms @ [(la, lb, 0)]). prec (ai, bj, sz) y" by (simp_all add: m)
  have "\<forall>y\<in>set (ms @ [(la, lb, 0)]). ai + sz \<le> fst y \<and> bj + sz \<le> fst (snd y)"
  proof
    fix y assume "y \<in> set (ms @ [(la, lb, 0)])"
    with p have "prec (ai, bj, sz) y" by blast
    then show "ai + sz \<le> fst y \<and> bj + sz \<le> fst (snd y)"
      by (cases y) (simp add: prec_def)
  qed
  from Cons.IH[OF s this]
  have "contiguous (ai + sz) (bj + sz) (opcodes_loop (ms @ [(la, lb, 0)]) (ai + sz) (bj + sz) []) la lb" .
  from contiguous_append[OF block_ops_contiguous[OF le] this]
  show ?case by (simp add: m opcodes_loop_Cons)
qed

lemma get_opcodes_contiguous:
  "contiguous 0 0 (get_opcodes a b) (length a) (length b)"
proof -
  from get_matching_blocks_chain[of a b] obtain ms where
    g: "get_matching_blocks a b = ms @ [(length a, length b, 0)]"
    and s: "sorted_wrt prec (ms @ [(length a, length b, 0)])" by blast
  from opcodes_loop_contiguous[OF s, of 0 0] show ?thesis
    by (simp add: get_opcodes_def g)
qed

subsection \<open>What contiguous opcodes give\<close>

lemma contiguous_le: "contiguous i j opcs i' j' \<Longrightarrow> i \<le> i' \<and> j \<le> j'"
  by (induction i j opcs i' j' rule: contiguous.induct)
    (auto simp: opcode_ok_def split: tag.splits)

lemma contiguous_elem:
  "contiguous i j opcs i' j' \<Longrightarrow> (tag, i1, i2, j1, j2) \<in> set opcs \<Longrightarrow>
     opcode_ok (tag, i1, i2, j1, j2) \<and> i2 \<le> i' \<and> j2 \<le> j'"
proof (induction i j opcs i' j' rule: contiguous.induct)
  case (1 i j i' j')
  then show ?case by simp
next
  case (2 i j t k1 k2 l1 l2 opcs i' j')
  from "2.prems"(1)[unfolded contiguous.simps]
  have c: "contiguous k2 l2 opcs i' j'" and ok: "opcode_ok (t, k1, k2, l1, l2)"
    by blast+
  show ?case
  proof (cases "(tag, i1, i2, j1, j2) = (t, k1, k2, l1, l2)")
    case True
    with ok contiguous_le[OF c] show ?thesis by simp
  next
    case False
    with "2.prems"(2) have "(tag, i1, i2, j1, j2) \<in> set opcs" by auto
    from "2.IH"[OF c this] show ?thesis .
  qed
qed

lemma slice_append: "i1 \<le> i2 \<Longrightarrow> i2 \<le> i3 \<Longrightarrow> slice xs i1 i2 @ slice xs i2 i3 = slice xs i1 i3"
proof -
  assume a: "i1 \<le> i2" "i2 \<le> i3"
  then have "i3 - i1 = (i2 - i1) + (i3 - i2)" by simp
  then have "take (i3 - i1) (drop i1 xs)
      = take (i2 - i1) (drop i1 xs) @ take (i3 - i2) (drop (i2 - i1) (drop i1 xs))"
    by (simp only: take_add)
  then show ?thesis using a by (simp add: slice_def)
qed

lemma contiguous_old:
  "contiguous i j opcs i' j' \<Longrightarrow>
     concat (map (\<lambda>(tag, i1, i2, j1, j2). slice xs i1 i2) opcs) = slice xs i i'"
proof (induction i j opcs i' j' rule: contiguous.induct)
  case (1 i j i' j')
  then show ?case by (simp add: slice_def)
next
  case (2 i j t k1 k2 l1 l2 opcs i' j')
  from "2.prems"[unfolded contiguous.simps]
  have c: "contiguous k2 l2 opcs i' j'" and ok: "opcode_ok (t, k1, k2, l1, l2)"
    and k: "k1 = i" by blast+
  from ok have "k1 \<le> k2" by (auto simp: opcode_ok_def split: tag.splits)
  with contiguous_le[OF c] "2.IH"[OF c] k show ?case
    by (simp add: slice_append)
qed

lemma contiguous_new:
  "contiguous i j opcs i' j' \<Longrightarrow>
     concat (map (\<lambda>(tag, i1, i2, j1, j2). slice ys j1 j2) opcs) = slice ys j j'"
proof (induction i j opcs i' j' rule: contiguous.induct)
  case (1 i j i' j')
  then show ?case by (simp add: slice_def)
next
  case (2 i j t k1 k2 l1 l2 opcs i' j')
  from "2.prems"[unfolded contiguous.simps]
  have c: "contiguous k2 l2 opcs i' j'" and ok: "opcode_ok (t, k1, k2, l1, l2)"
    and l: "l1 = j" by blast+
  from ok have "l1 \<le> l2" by (auto simp: opcode_ok_def split: tag.splits)
  with contiguous_le[OF c] "2.IH"[OF c] l show ?case
    by (simp add: slice_append)
qed

subsection \<open>The rows of a run\<close>

lemma diff_loop_concat:
  "diff_loop lines_old lines_new opcs diff =
     diff @ concat (map (chunk_rows lines_old lines_new) opcs)"
  by (induction opcs arbitrary: diff) simp_all

lemma side_by_side_diff_concat:
  "side_by_side_diff lines_old lines_new =
     concat (map (chunk_rows lines_old lines_new) (get_opcodes lines_old lines_new))"
  by (simp add: side_by_side_diff_def diff_loop_concat)

lemma slice_nth:
  assumes "i1 \<le> i2" "i2 \<le> length xs"
  shows "slice xs i1 i2 = map (\<lambda>n. xs ! (i1 + n)) [0..<i2 - i1]"
  using assms by (intro nth_equalityI) (simp_all add: slice_def)

lemma length_slice: "i2 \<le> length xs \<Longrightarrow> length (slice xs i1 i2) = i2 - i1"
  by (simp add: slice_def)

lemma chunk_rows_nth:
  assumes "i1 \<le> i2" "i2 \<le> length lines_old" "j1 \<le> j2" "j2 \<le> length lines_new"
  shows "chunk_rows lines_old lines_new (tag, i1, i2, j1, j2) =
     map (\<lambda>n. (if n < i2 - i1 then lines_old ! (i1 + n) else [],
               if n < j2 - j1 then lines_new ! (j1 + n) else [], status_of tag))
       [0..<max (i2 - i1) (j2 - j1)]"
proof (rule nth_equalityI)
  show "length (chunk_rows lines_old lines_new (tag, i1, i2, j1, j2)) =
    length (map (\<lambda>n. (if n < i2 - i1 then lines_old ! (i1 + n) else [],
               if n < j2 - j1 then lines_new ! (j1 + n) else [], status_of tag))
       [0..<max (i2 - i1) (j2 - j1)])"
    using assms by (simp add: chunk_rows_def Let_def length_slice)
next
  fix n assume "n < length (chunk_rows lines_old lines_new (tag, i1, i2, j1, j2))"
  then have n: "n < max (i2 - i1) (j2 - j1)"
    using assms by (simp add: chunk_rows_def Let_def length_slice)
  have o: "(slice lines_old i1 i2 @ replicate (max (i2 - i1) (j2 - j1) - (i2 - i1)) []) ! n
      = (if n < i2 - i1 then lines_old ! (i1 + n) else [])"
    using assms n by (auto simp: nth_append length_slice slice_nth)
  have m: "(slice lines_new j1 j2 @ replicate (max (i2 - i1) (j2 - j1) - (j2 - j1)) []) ! n
      = (if n < j2 - j1 then lines_new ! (j1 + n) else [])"
    using assms n by (auto simp: nth_append length_slice slice_nth)
  show "chunk_rows lines_old lines_new (tag, i1, i2, j1, j2) ! n =
    map (\<lambda>n. (if n < i2 - i1 then lines_old ! (i1 + n) else [],
               if n < j2 - j1 then lines_new ! (j1 + n) else [], status_of tag))
       [0..<max (i2 - i1) (j2 - j1)] ! n"
    using n assms o m by (simp add: chunk_rows_def Let_def length_slice)
qed

lemma get_opcodes_elem:
  assumes "(tag, i1, i2, j1, j2) \<in> set (get_opcodes a b)"
  shows "opcode_ok (tag, i1, i2, j1, j2) \<and> i2 \<le> length a \<and> j2 \<le> length b"
  using contiguous_elem[OF get_opcodes_contiguous assms] .

lemma opcode_ok_le: "opcode_ok (tag, i1, i2, j1, j2) \<Longrightarrow> i1 \<le> i2 \<and> j1 \<le> j2"
  by (auto simp: opcode_ok_def split: tag.splits)

lemma length_chunk_rows:
  assumes "(tag, i1, i2, j1, j2) \<in> set (get_opcodes a b)"
  shows "length (chunk_rows a b (tag, i1, i2, j1, j2)) = max (i2 - i1) (j2 - j1)"
proof -
  from get_opcodes_elem[OF assms] opcode_ok_le[of tag i1 i2 j1 j2]
  have "i1 \<le> i2" "i2 \<le> length a" "j1 \<le> j2" "j2 \<le> length b" by simp_all
  from chunk_rows_nth[OF this] show ?thesis by simp
qed

text \<open>
  Claim C1: the diff is the concatenation, in opcode order, of the rows of each run. A run
  tagged \<open>Replace\<close> with old sub-run \<open>lines_old[i1:i2]\<close> (length \<open>Lo = i2 - i1\<close>) and new
  sub-run \<open>lines_new[j1:j2]\<close> (length \<open>Ln = j2 - j1\<close>), both within their sequences,
  produces exactly \<open>max Lo Ln\<close> rows: row \<open>n\<close> pairs the \<open>n\<close>-th old line with the
  \<open>n\<close>-th new line, the empty string standing in on the side that has run out, and every
  row, padded ones included, has status \<open>Modified\<close>.
\<close>

theorem replace_run_rows:
  "side_by_side_diff lines_old lines_new =
     concat (map (chunk_rows lines_old lines_new) (get_opcodes lines_old lines_new))
   \<and> (\<forall>(tag, i1, i2, j1, j2) \<in> set (get_opcodes lines_old lines_new).
        tag = Replace \<longrightarrow>
          i1 < i2 \<and> i2 \<le> length lines_old \<and> j1 < j2 \<and> j2 \<le> length lines_new \<and>
          chunk_rows lines_old lines_new (tag, i1, i2, j1, j2) =
            map (\<lambda>n. (if n < i2 - i1 then lines_old ! (i1 + n) else [],
                      if n < j2 - j1 then lines_new ! (j1 + n) else [], Modified))
              [0..<max (i2 - i1) (j2 - j1)])"
proof (intro conjI ballI)
  show "side_by_side_diff lines_old lines_new =
     concat (map (chunk_rows lines_old lines_new) (get_opcodes lines_old lines_new))"
    by (rule side_by_side_diff_concat)
next
  fix opc assume opc: "opc \<in> set (get_opcodes lines_old lines_new)"
  obtain tag i1 i2 j1 j2 where e: "opc = (tag, i1, i2, j1, j2)" by (metis prod_cases5)
  have "i1 < i2 \<and> i2 \<le> length lines_old \<and> j1 < j2 \<and> j2 \<le> length lines_new \<and>
          chunk_rows lines_old lines_new (tag, i1, i2, j1, j2) =
            map (\<lambda>n. (if n < i2 - i1 then lines_old ! (i1 + n) else [],
                      if n < j2 - j1 then lines_new ! (j1 + n) else [], Modified))
              [0..<max (i2 - i1) (j2 - j1)]" if r: "tag = Replace"
  proof -
    from get_opcodes_elem[OF opc[unfolded e]] r
    have b: "i1 < i2" "i2 \<le> length lines_old" "j1 < j2" "j2 \<le> length lines_new"
      by (simp_all add: opcode_ok_def)
    from chunk_rows_nth[of i1 i2 lines_old j1 j2 lines_new tag] b r
    show ?thesis by (simp add: status_of_def)
  qed
  then show "case opc of (tag, i1, i2, j1, j2) \<Rightarrow> tag = Replace \<longrightarrow>
          i1 < i2 \<and> i2 \<le> length lines_old \<and> j1 < j2 \<and> j2 \<le> length lines_new \<and>
          chunk_rows lines_old lines_new (tag, i1, i2, j1, j2) =
            map (\<lambda>n. (if n < i2 - i1 then lines_old ! (i1 + n) else [],
                      if n < j2 - j1 then lines_new ! (j1 + n) else [], Modified))
              [0..<max (i2 - i1) (j2 - j1)]"
    unfolding e by simp
qed

lemma ex_opcodes_replace:
  "get_opcodes [''a'', ''b'', ''c'', ''d''] [''a'', ''x'', ''d''] =
     [(Equal, 0, 1, 0, 1), (Replace, 1, 3, 1, 2), (Equal, 3, 4, 2, 3)]"
  by code_simp

theorem replace_run_rows_witness:
  "(Replace, 1, 3, 1, 2) \<in> set (get_opcodes [''a'', ''b'', ''c'', ''d''] [''a'', ''x'', ''d''])
   \<and> chunk_rows [''a'', ''b'', ''c'', ''d''] [''a'', ''x'', ''d''] (Replace, 1, 3, 1, 2) =
       [(''b'', ''x'', Modified), (''c'', [], Modified)]
   \<and> side_by_side_diff [''a'', ''b'', ''c'', ''d''] [''a'', ''x'', ''d''] =
       [(''a'', ''a'', Unchanged), (''b'', ''x'', Modified), (''c'', [], Modified),
        (''d'', ''d'', Unchanged)]"
proof -
  have u: "[0..<2] = [0, 1::nat]" by code_simp
  have c1: "chunk_rows [''a'', ''b'', ''c'', ''d''] [''a'', ''x'', ''d''] (Equal, 0, Suc 0, 0, Suc 0)
      = [(''a'', ''a'', Unchanged)]" by code_simp
  have c3: "chunk_rows [''a'', ''b'', ''c'', ''d''] [''a'', ''x'', ''d''] (Equal, 3, 4, 2, 3)
      = [(''d'', ''d'', Unchanged)]" by code_simp
  from replace_run_rows[of "[''a'', ''b'', ''c'', ''d'']" "[''a'', ''x'', ''d'']"]
  show ?thesis unfolding ex_opcodes_replace by (simp add: u c1 c3)
qed

lemma sum_list_length_concat:
  "length (concat (map f xs)) = sum_list (map (\<lambda>x. length (f x)) xs)"
  by (induction xs) simp_all

lemma slice_whole: "slice xs 0 (length xs) = xs"
  by (simp add: slice_def)

text \<open>
  Claim C3: the diff is the concatenation of the rows of the opcode runs, in order; its
  length is the sum over the runs of the maximum of the old-side and new-side lengths;
  the old sub-runs, concatenated in opcode order, are the old document and the new
  sub-runs are the new document, so the rows follow the order of both documents. An
  \<open>Equal\<close> run of length \<open>L\<close> gives \<open>L\<close> rows pairing the old and the new line with status
  \<open>Unchanged\<close>; a \<open>Delete\<close> run gives one \<open>Removed\<close> row per old line with an empty new
  side; an \<open>Insert\<close> run gives one \<open>Added\<close> row per new line with an empty old side.
\<close>

theorem diff_rows_in_document_order:
  "side_by_side_diff lines_old lines_new =
     concat (map (chunk_rows lines_old lines_new) (get_opcodes lines_old lines_new))
   \<and> length (side_by_side_diff lines_old lines_new) =
       sum_list (map (\<lambda>(tag, i1, i2, j1, j2). max (i2 - i1) (j2 - j1))
         (get_opcodes lines_old lines_new))
   \<and> concat (map (\<lambda>(tag, i1, i2, j1, j2). slice lines_old i1 i2)
         (get_opcodes lines_old lines_new)) = lines_old
   \<and> concat (map (\<lambda>(tag, i1, i2, j1, j2). slice lines_new j1 j2)
         (get_opcodes lines_old lines_new)) = lines_new
   \<and> (\<forall>(tag, i1, i2, j1, j2) \<in> set (get_opcodes lines_old lines_new).
        (tag = Equal \<longrightarrow>
           j2 - j1 = i2 - i1 \<and>
           chunk_rows lines_old lines_new (tag, i1, i2, j1, j2) =
             map (\<lambda>n. (lines_old ! (i1 + n), lines_new ! (j1 + n), Unchanged)) [0..<i2 - i1])
        \<and> (tag = Delete \<longrightarrow>
           chunk_rows lines_old lines_new (tag, i1, i2, j1, j2) =
             map (\<lambda>n. (lines_old ! (i1 + n), [], Removed)) [0..<i2 - i1])
        \<and> (tag = Insert \<longrightarrow>
           chunk_rows lines_old lines_new (tag, i1, i2, j1, j2) =
             map (\<lambda>n. ([], lines_new ! (j1 + n), Added)) [0..<j2 - j1]))"
proof (intro conjI ballI)
  let ?ops = "get_opcodes lines_old lines_new"
  show "side_by_side_diff lines_old lines_new = concat (map (chunk_rows lines_old lines_new) ?ops)"
    by (rule side_by_side_diff_concat)
  have m: "map (\<lambda>opc. length (chunk_rows lines_old lines_new opc)) ?ops
      = map (\<lambda>(tag, i1, i2, j1, j2). max (i2 - i1) (j2 - j1)) ?ops"
    by (rule map_cong[OF refl]) (auto simp: length_chunk_rows)
  have "length (side_by_side_diff lines_old lines_new) =
       sum_list (map (\<lambda>opc. length (chunk_rows lines_old lines_new opc)) ?ops)"
    by (simp add: side_by_side_diff_concat sum_list_length_concat)
  also have "\<dots> = sum_list (map (\<lambda>(tag, i1, i2, j1, j2). max (i2 - i1) (j2 - j1)) ?ops)"
    by (simp only: m)
  finally show "length (side_by_side_diff lines_old lines_new) =
       sum_list (map (\<lambda>(tag, i1, i2, j1, j2). max (i2 - i1) (j2 - j1)) ?ops)" .
  show "concat (map (\<lambda>(tag, i1, i2, j1, j2). slice lines_old i1 i2) ?ops) = lines_old"
    using contiguous_old[OF get_opcodes_contiguous[of lines_old lines_new], where xs = lines_old]
    by (simp add: slice_whole)
  show "concat (map (\<lambda>(tag, i1, i2, j1, j2). slice lines_new j1 j2) ?ops) = lines_new"
    using contiguous_new[OF get_opcodes_contiguous[of lines_old lines_new], where ys = lines_new]
    by (simp add: slice_whole)
next
  fix opc assume opc: "opc \<in> set (get_opcodes lines_old lines_new)"
  obtain tag i1 i2 j1 j2 where e: "opc = (tag, i1, i2, j1, j2)" by (metis prod_cases5)
  from get_opcodes_elem[OF opc[unfolded e]]
  have ok: "opcode_ok (tag, i1, i2, j1, j2)" and hi: "i2 \<le> length lines_old" "j2 \<le> length lines_new"
    by simp_all
  from opcode_ok_le[OF ok] have le: "i1 \<le> i2" "j1 \<le> j2" by simp_all
  note rows = chunk_rows_nth[OF le(1) hi(1) le(2) hi(2), of tag]
  have eq: "j2 - j1 = i2 - i1 \<and>
           chunk_rows lines_old lines_new (tag, i1, i2, j1, j2) =
             map (\<lambda>n. (lines_old ! (i1 + n), lines_new ! (j1 + n), Unchanged)) [0..<i2 - i1]"
    if "tag = Equal"
    using ok that rows by (simp add: opcode_ok_def status_of_def)
  have del: "chunk_rows lines_old lines_new (tag, i1, i2, j1, j2) =
             map (\<lambda>n. (lines_old ! (i1 + n), [], Removed)) [0..<i2 - i1]"
    if "tag = Delete"
    using ok that rows by (simp add: opcode_ok_def status_of_def)
  have ins: "chunk_rows lines_old lines_new (tag, i1, i2, j1, j2) =
             map (\<lambda>n. ([], lines_new ! (j1 + n), Added)) [0..<j2 - j1]"
    if "tag = Insert"
    using ok that rows by (simp add: opcode_ok_def status_of_def)
  show "case opc of (tag, i1, i2, j1, j2) \<Rightarrow>
        (tag = Equal \<longrightarrow>
           j2 - j1 = i2 - i1 \<and>
           chunk_rows lines_old lines_new (tag, i1, i2, j1, j2) =
             map (\<lambda>n. (lines_old ! (i1 + n), lines_new ! (j1 + n), Unchanged)) [0..<i2 - i1])
        \<and> (tag = Delete \<longrightarrow>
           chunk_rows lines_old lines_new (tag, i1, i2, j1, j2) =
             map (\<lambda>n. (lines_old ! (i1 + n), [], Removed)) [0..<i2 - i1])
        \<and> (tag = Insert \<longrightarrow>
           chunk_rows lines_old lines_new (tag, i1, i2, j1, j2) =
             map (\<lambda>n. ([], lines_new ! (j1 + n), Added)) [0..<j2 - j1])"
    unfolding e using eq del ins by simp
qed

lemma ex_opcodes_shift:
  "get_opcodes [''a'', ''b'', ''c''] [''b'', ''c'', ''d''] =
     [(Delete, 0, 1, 0, 0), (Equal, 1, 3, 0, 2), (Insert, 3, 3, 2, 3)]"
  by code_simp

theorem diff_rows_in_document_order_witness:
  "get_opcodes [''a'', ''b'', ''c''] [''b'', ''c'', ''d''] =
     [(Delete, 0, 1, 0, 0), (Equal, 1, 3, 0, 2), (Insert, 3, 3, 2, 3)]
   \<and> length (side_by_side_diff [''a'', ''b'', ''c''] [''b'', ''c'', ''d'']) = 1 + 2 + 1
   \<and> chunk_rows [''a'', ''b'', ''c''] [''b'', ''c'', ''d''] (Delete, 0, 1, 0, 0) =
       [(''a'', [], Removed)]
   \<and> chunk_rows [''a'', ''b'', ''c''] [''b'', ''c'', ''d''] (Equal, 1, 3, 0, 2) =
       [(''b'', ''b'', Unchanged), (''c'', ''c'', Unchanged)]
   \<and> chunk_rows [''a'', ''b'', ''c''] [''b'', ''c'', ''d''] (Insert, 3, 3, 2, 3) =
       [([], ''d'', Added)]"
proof -
  have u: "[0..<2] = [0, 1::nat]" by code_simp
  from diff_rows_in_document_order[of "[''a'', ''b'', ''c'']" "[''b'', ''c'', ''d'']"]
  show ?thesis unfolding ex_opcodes_shift by (simp add: u)
qed

end
